theory Spec2Isabelle
  imports Complex_Main "HOL-Library.Word"
begin

section \<open>JavaScript values\<close>

text \<open>
  A JavaScript string is a sequence of UTF-16 code units. String literals of the source
  are ASCII and are written through \<open>ascii\<close>.
\<close>

type_synonym code_unit = "16 word"
type_synonym jsstring = "code_unit list"

definition ascii :: "string \<Rightarrow> jsstring" where
  "ascii s = map of_char s"

text \<open>
  Numbers only matter through their truthiness here, so a number is the real it denotes,
  or one of the three special values.
\<close>

datatype jsnum = NaN | PosInfinity | NegInfinity | Finite real

text \<open>
  The values \<open>JSON.parse\<close> can produce, and \<open>undefined\<close>, which a property read
  produces. An object is the association list of its own properties.
\<close>

datatype jsval =
    JUndefined
  | JNull
  | JBool bool
  | JNum jsnum
  | JStr jsstring
  | JArr "jsval list"
  | JObj "(jsstring \<times> jsval) list"

datatype js_error = URIError | TypeError | SyntaxError | DOMException | Error string

text \<open>ToBoolean, as \<open>||\<close>, \<open>&&\<close> and \<open>!\<close> apply it.\<close>

fun truthy :: "jsval \<Rightarrow> bool" where
  "truthy JUndefined = False"
| "truthy JNull = False"
| "truthy (JBool b) = b"
| "truthy (JNum NaN) = False"
| "truthy (JNum (Finite x)) = (x \<noteq> 0)"
| "truthy (JNum _) = True"
| "truthy (JStr s) = (s \<noteq> [])"
| "truthy (JArr _) = True"
| "truthy (JObj _) = True"

fun isArray :: "jsval \<Rightarrow> bool" where
  "isArray (JArr _) = True"
| "isArray _ = False"

text \<open>
  A property read \<open>v.name\<close>, for the names this program reads (\<open>results\<close>,
  \<open>url\<close>, \<open>title\<close>, \<open>snippet\<close>, \<open>summary\<close>): none of them is defined on a
  built-in prototype, so only an object's own property can answer; reading from
  \<open>null\<close> or \<open>undefined\<close> throws a TypeError.
\<close>

fun get_prop :: "jsval \<Rightarrow> jsstring \<Rightarrow> js_error + jsval" where
  "get_prop JUndefined name = Inl TypeError"
| "get_prop JNull name = Inl TypeError"
| "get_prop (JObj kvs) name = Inr (case map_of kvs name of None \<Rightarrow> JUndefined | Some x \<Rightarrow> x)"
| "get_prop _ name = Inr JUndefined"

section \<open>Promises\<close>

text \<open>
  What a promise comes to: it may never settle (no timeout is enforced anywhere), it may
  reject, or it is fulfilled with a value.
\<close>

datatype 'a promise = Pending | Rejected js_error | Fulfilled 'a

fun await :: "'a promise \<Rightarrow> ('a \<Rightarrow> 'b promise) \<Rightarrow> 'b promise" where
  "await Pending k = Pending"
| "await (Rejected e) k = Rejected e"
| "await (Fulfilled v) k = k v"

fun try_catch :: "'a promise \<Rightarrow> (js_error \<Rightarrow> 'a promise) \<Rightarrow> 'a promise" where
  "try_catch Pending h = Pending"
| "try_catch (Rejected e) h = h e"
| "try_catch (Fulfilled v) h = Fulfilled v"

text \<open>A fetch Response: its status and what \<open>res.json()\<close> settles to.\<close>

record response =
  status :: nat
  json :: "jsval promise"

definition ok :: "response \<Rightarrow> bool" where
  "ok res \<longleftrightarrow> 200 \<le> status res \<and> status res \<le> 299"

text \<open>A network that gives every request the same outcome.\<close>

definition always :: "response promise \<Rightarrow> jsstring \<Rightarrow> response promise" where
  "always outcome url = outcome"

section \<open>encodeURIComponent\<close>

text \<open>
  The characters \<open>encodeURIComponent\<close> leaves as they are: ASCII letters, digits and
  \<open>- _ . ! ~ * ' ( )\<close>.
\<close>

definition unescaped :: "code_unit \<Rightarrow> bool" where
  "unescaped c \<longleftrightarrow>
     (0x41 \<le> c \<and> c \<le> 0x5A) \<or> (0x61 \<le> c \<and> c \<le> 0x7A) \<or> (0x30 \<le> c \<and> c \<le> 0x39) \<or>
     c \<in> {0x2D, 0x5F, 0x2E, 0x21, 0x7E, 0x2A, 0x27, 0x28, 0x29}"

definition is_leading_surrogate :: "code_unit \<Rightarrow> bool" where
  "is_leading_surrogate c \<longleftrightarrow> 0xD800 \<le> c \<and> c \<le> 0xDBFF"

definition is_trailing_surrogate :: "code_unit \<Rightarrow> bool" where
  "is_trailing_surrogate c \<longleftrightarrow> 0xDC00 \<le> c \<and> c \<le> 0xDFFF"

definition surrogate_pair_to_code_point :: "code_unit \<Rightarrow> code_unit \<Rightarrow> nat" where
  "surrogate_pair_to_code_point lead trail =
     (unat lead - 0xD800) * 0x400 + (unat trail - 0xDC00) + 0x10000"

text \<open>The UTF-8 octets of a code point.\<close>

definition utf8_encode :: "nat \<Rightarrow> nat list" where
  "utf8_encode cp =
     (if cp < 0x80 then [cp]
      else if cp < 0x800 then [0xC0 + cp div 64, 0x80 + cp mod 64]
      else if cp < 0x10000 then
        [0xE0 + cp div 4096, 0x80 + (cp div 64) mod 64, 0x80 + cp mod 64]
      else
        [0xF0 + cp div 262144, 0x80 + (cp div 4096) mod 64, 0x80 + (cp div 64) mod 64,
         0x80 + cp mod 64])"

definition hex_digit :: "nat \<Rightarrow> code_unit" where
  "hex_digit n = (if n < 10 then 0x30 + of_nat n else 0x41 + of_nat (n - 10))"

text \<open>One octet as \<open>%XY\<close>, in upper-case hexadecimal.\<close>

definition percent_octet :: "nat \<Rightarrow> jsstring" where
  "percent_octet b = [0x25, hex_digit (b div 16), hex_digit (b mod 16)]"

definition percent_encode :: "nat \<Rightarrow> jsstring" where
  "percent_encode cp = concat (map percent_octet (utf8_encode cp))"

text \<open>
  The Encode operation of ECMAScript with the unescaped set of \<open>encodeURIComponent\<close>.
  A code unit that is not left as it is is read as a code point (a surrogate pair is two
  code units); an unpaired surrogate throws a URIError.
\<close>

fun encodeURIComponent :: "jsstring \<Rightarrow> js_error + jsstring" where
  "encodeURIComponent [] = Inr []"
| "encodeURIComponent (c # cs) =
     (if unescaped c then
        (case encodeURIComponent cs of Inl e \<Rightarrow> Inl e | Inr r \<Rightarrow> Inr (c # r))
      else if is_trailing_surrogate c then Inl URIError
      else if is_leading_surrogate c then
        (case cs of
           [] \<Rightarrow> Inl URIError
         | d # ds \<Rightarrow>
             if is_trailing_surrogate d then
               (case encodeURIComponent ds of
                  Inl e \<Rightarrow> Inl e
                | Inr r \<Rightarrow> Inr (percent_encode (surrogate_pair_to_code_point c d) @ r))
             else Inl URIError)
      else
        (case encodeURIComponent cs of
           Inl e \<Rightarrow> Inl e
         | Inr r \<Rightarrow> Inr (percent_encode (unat c) @ r)))"

text \<open>The strings without an unpaired surrogate.\<close>

fun well_formed :: "jsstring \<Rightarrow> bool" where
  "well_formed [] = True"
| "well_formed (c # cs) =
     (if is_trailing_surrogate c then False
      else if is_leading_surrogate c then
        (case cs of [] \<Rightarrow> False | d # ds \<Rightarrow> is_trailing_surrogate d \<and> well_formed ds)
      else well_formed cs)"

section \<open>The API client\<close>

text \<open>
  \<open>API_BASE\<close> is read from the build environment; it is a parameter here, as the string
  the template literal interpolates.
\<close>

definition request_url :: "jsstring \<Rightarrow> jsstring \<Rightarrow> js_error + jsstring" where
  "request_url API_BASE query =
     (case encodeURIComponent query of
        Inl e \<Rightarrow> Inl e
      | Inr enc \<Rightarrow> Inr (API_BASE @ ascii ''/search?q='' @ enc))"

text \<open>
  The body of the \<open>try\<close> block of \<open>searchQuery\<close>. The network is the function
  \<open>fetch\<close>, from the requested URL to what the returned promise comes to. The calls
  of \<open>console.log\<close> and \<open>console.error\<close> change nothing that is observed here and
  are left out.
\<close>

definition searchQuery_try ::
  "jsstring \<Rightarrow> (jsstring \<Rightarrow> response promise) \<Rightarrow> jsstring \<Rightarrow> jsval promise" where
  "searchQuery_try API_BASE fetch query =
     (case request_url API_BASE query of
        Inl e \<Rightarrow> Rejected e
      | Inr url \<Rightarrow>
          await (fetch url) (\<lambda>res.
            if \<not> ok res then Rejected (Error ''Search failed'')
            else await (json res) (\<lambda>data.
              case get_prop data (ascii ''results'') of
                Inl e \<Rightarrow> Rejected e
              | Inr r \<Rightarrow> Fulfilled (if truthy r then r else JArr []))))"

definition searchQuery ::
  "jsstring \<Rightarrow> (jsstring \<Rightarrow> response promise) \<Rightarrow> jsstring \<Rightarrow> jsval promise" where
  "searchQuery API_BASE fetch query =
     try_catch (searchQuery_try API_BASE fetch query) (\<lambda>err. Fulfilled (JArr []))"

section \<open>The search view\<close>

text \<open>
  The whitespace and line terminators that \<open>String.prototype.trim\<close> strips.
\<close>

definition is_white_space :: "code_unit \<Rightarrow> bool" where
  "is_white_space c \<longleftrightarrow>
     c \<in> {0x09, 0x0A, 0x0B, 0x0C, 0x0D, 0x20, 0xA0, 0x1680, 0x2028, 0x2029, 0x202F, 0x205F,
          0x3000, 0xFEFF} \<or>
     (0x2000 \<le> c \<and> c \<le> 0x200A)"

definition trim :: "jsstring \<Rightarrow> jsstring" where
  "trim s = rev (dropWhile is_white_space (rev (dropWhile is_white_space s)))"

text \<open>The four \<open>useState\<close> cells of \<open>App\<close>, with their initial values.\<close>

record view_state =
  query :: jsstring
  results :: jsval
  loading :: bool
  hasSearched :: bool

definition initial_view :: view_state where
  "initial_view = \<lparr>query = [], results = JArr [], loading = False, hasSearched = False\<rparr>"

text \<open>The input's \<open>onChange\<close>: \<open>setQuery(e.target.value)\<close>.\<close>

definition onChange :: "jsstring \<Rightarrow> view_state \<Rightarrow> view_state" where
  "onChange val v = v\<lparr>query := val\<rparr>"

text \<open>The window's keydown listener: \<open>e.key === "Escape" && setQuery("")\<close>.\<close>

definition clear :: "jsstring \<Rightarrow> view_state \<Rightarrow> view_state" where
  "clear key v = (if key = ascii ''Escape'' then v\<lparr>query := []\<rparr> else v)"

text \<open>
  \<open>handleSearch\<close> up to its \<open>await\<close>: the new view state, and the argument of the
  \<open>searchQuery\<close> call it makes, if it makes one. The empty string is the only falsy
  string, so \<open>!query.trim()\<close> holds when the trimmed query is empty. The call
  \<open>e?.preventDefault?.()\<close> touches no state of the component.
\<close>

definition handleSearch :: "view_state \<Rightarrow> view_state \<times> jsstring option" where
  "handleSearch v =
     (if trim (query v) = [] then (v, None)
      else (v\<lparr>loading := True, hasSearched := True\<rparr>, Some (query v)))"

text \<open>\<open>handleSearch\<close> after its \<open>await\<close>, with the value \<open>searchQuery\<close> resolved to.\<close>

definition handleSearch_resume :: "jsval \<Rightarrow> view_state \<Rightarrow> view_state" where
  "handleSearch_resume data v =
     v\<lparr>results := (if isArray data then data else JArr []), loading := False\<rparr>"

subsection \<open>The application as an event system\<close>

text \<open>
  The view state, the \<open>searchQuery\<close> calls that \<open>handleSearch\<close> invocations are
  awaiting (by their argument, oldest first), and the URLs passed to \<open>fetch\<close> so far.
\<close>

record app =
  view :: view_state
  inflight :: "jsstring list"
  fetched :: "jsstring list"

definition initial_app :: app where
  "initial_app = \<lparr>view = initial_view, inflight = [], fetched = []\<rparr>"

text \<open>
  The events: the user edits the input, a key goes down somewhere in the window, the form
  is submitted, or the network answers the \<open>i\<close>-th call in flight.
\<close>

datatype event =
    Change jsstring
  | KeyDown jsstring
  | Submit
  | Settle nat "response promise"

definition submit :: "jsstring \<Rightarrow> app \<Rightarrow> app" where
  "submit API_BASE a =
     (case handleSearch (view a) of
        (v, None) \<Rightarrow> a\<lparr>view := v\<rparr>
      | (v, Some q) \<Rightarrow>
          a\<lparr>view := v,
            inflight := inflight a @ [q],
            fetched := fetched a @
              (case request_url API_BASE q of Inl e \<Rightarrow> [] | Inr url \<Rightarrow> [url])\<rparr>)"

text \<open>
  A call whose promise is still pending stays in flight. A rejected promise would end the
  \<open>handleSearch\<close> invocation without running the code after the \<open>await\<close>.
\<close>

definition settle :: "jsstring \<Rightarrow> nat \<Rightarrow> response promise \<Rightarrow> app \<Rightarrow> app" where
  "settle API_BASE i outcome a =
     (if i < length (inflight a) then
        (case searchQuery API_BASE (always outcome) (inflight a ! i) of
           Pending \<Rightarrow> a
         | Rejected e \<Rightarrow> a\<lparr>inflight := take i (inflight a) @ drop (Suc i) (inflight a)\<rparr>
         | Fulfilled data \<Rightarrow>
             a\<lparr>view := handleSearch_resume data (view a),
               inflight := take i (inflight a) @ drop (Suc i) (inflight a)\<rparr>)
      else a)"

fun step :: "jsstring \<Rightarrow> app \<Rightarrow> event \<Rightarrow> app" where
  "step API_BASE a (Change val) = a\<lparr>view := onChange val (view a)\<rparr>"
| "step API_BASE a (KeyDown key) = a\<lparr>view := clear key (view a)\<rparr>"
| "step API_BASE a Submit = submit API_BASE a"
| "step API_BASE a (Settle i outcome) = settle API_BASE i outcome a"

definition run :: "jsstring \<Rightarrow> app \<Rightarrow> event list \<Rightarrow> app" where
  "run API_BASE a evs = foldl (step API_BASE) a evs"

subsection \<open>Following a call in flight\<close>

text \<open>
  The call that an event takes out of flight, if it takes one: the answer of the network
  to the \<open>j\<close>-th call, when the promise of that call settles with it.
\<close>

definition removes :: "jsstring \<Rightarrow> app \<Rightarrow> event \<Rightarrow> nat option" where
  "removes API_BASE b ev =
     (case ev of
        Settle j outcome \<Rightarrow>
          if j < length (inflight b) \<and>
             searchQuery API_BASE (always outcome) (inflight b ! j) \<noteq> Pending
          then Some j else None
      | _ \<Rightarrow> None)"

text \<open>The position, after an event, of the call that was at position \<open>i\<close> before it.\<close>

definition shift :: "jsstring \<Rightarrow> app \<Rightarrow> nat \<Rightarrow> event \<Rightarrow> nat" where
  "shift API_BASE b i ev =
     (case removes API_BASE b ev of
        None \<Rightarrow> i
      | Some j \<Rightarrow> if j < i then i - 1 else i)"

text \<open>
  The events \<open>evs\<close> run from the state \<open>b\<close>, with the call at position \<open>i\<close>
  followed through them: the state reached and the position of the call there, or
  \<open>None\<close> when one of the events is the answer to that very call.
\<close>

fun follow :: "jsstring \<Rightarrow> app \<Rightarrow> nat \<Rightarrow> event list \<Rightarrow> (app \<times> nat) option" where
  "follow API_BASE b i [] = Some (b, i)"
| "follow API_BASE b i (ev # evs) =
     (if removes API_BASE b ev = Some i then None
      else follow API_BASE (step API_BASE b ev) (shift API_BASE b i ev) evs)"

subsection \<open>Rendering\<close>

text \<open>\<open>new Array(6).fill(null)\<close>\<close>

definition skeletonRows :: "jsval list" where
  "skeletonRows = replicate 6 JNull"

text \<open>
  A child written \<open>{x && (<p>{x}</p>)}\<close> is the paragraph when \<open>x\<close> is truthy and
  the falsy value itself otherwise.
\<close>

datatype child = Paragraph jsval | Bare jsval

definition and_paragraph :: "jsval \<Rightarrow> child" where
  "and_paragraph x = (if truthy x then Paragraph x else Bare x)"

record result_row =
  href :: jsval
  heading :: jsval
  url_line :: child
  snippet_line :: child
  summary_line :: child

text \<open>One \<open><li>\<close> of the result list, for the element \<open>r\<close> of \<open>results\<close>.\<close>

definition result_item :: "jsval \<Rightarrow> js_error + result_row" where
  "result_item r =
     (case get_prop r (ascii ''url'') of
        Inl e \<Rightarrow> Inl e
      | Inr u \<Rightarrow>
         (case get_prop r (ascii ''title'') of
            Inl e \<Rightarrow> Inl e
          | Inr t \<Rightarrow>
             (case get_prop r (ascii ''snippet'') of
                Inl e \<Rightarrow> Inl e
              | Inr sn \<Rightarrow>
                 (case get_prop r (ascii ''summary'') of
                    Inl e \<Rightarrow> Inl e
                  | Inr su \<Rightarrow>
                      Inr \<lparr>href = u,
                           heading = (if truthy t then t else JStr (ascii ''Untitled'')),
                           url_line = and_paragraph u,
                           snippet_line = and_paragraph sn,
                           summary_line = and_paragraph su\<rparr>))))"

text \<open>\<open>results.map\<close> with a callback that may throw: the first exception ends it.\<close>

fun map_items :: "jsval list \<Rightarrow> js_error + result_row list" where
  "map_items [] = Inr []"
| "map_items (r # rs) =
     (case result_item r of
        Inl e \<Rightarrow> Inl e
      | Inr row \<Rightarrow> (case map_items rs of Inl e \<Rightarrow> Inl e | Inr rows \<Rightarrow> Inr (row # rows)))"

text \<open>
  The children of \<open><main>\<close> that are rendered: the spacer, the list of skeleton rows
  (with its number of rows), the message "No results yet. Try a different search." and
  the list of results.
\<close>

datatype block = Spacer | SkeletonList nat | EmptyMessage | ResultList "result_row list"

text \<open>
  The \<open><main>\<close> element as a function of \<open>loading\<close>, \<open>hasSearched\<close> and the elements
  of the array \<open>results\<close>. A conjunct after a false one is not evaluated.
\<close>

definition App_main :: "bool \<Rightarrow> bool \<Rightarrow> jsval list \<Rightarrow> js_error + block list" where
  "App_main ld hs rs =
     (case (if \<not> ld \<and> length rs > 0 then map_items rs else Inr []) of
        Inl e \<Rightarrow> Inl e
      | Inr rows \<Rightarrow>
          Inr ((if hs then [Spacer] else []) @
               (if ld then [SkeletonList (length skeletonRows)] else []) @
               (if \<not> ld \<and> hs \<and> length rs = 0 then [EmptyMessage] else []) @
               (if \<not> ld \<and> length rs > 0 then [ResultList rows] else [])))"

text \<open>
  What React does with the children it is given: strings, numbers, booleans, \<open>null\<close>,
  \<open>undefined\<close> and arrays of these are rendered or skipped, and a plain object as a
  child makes it throw ("Objects are not valid as a React child").
\<close>

fun valid_child :: "jsval \<Rightarrow> bool" where
  "valid_child (JObj kvs) = False"
| "valid_child (JArr xs) = list_all valid_child xs"
| "valid_child _ = True"

fun child_value :: "child \<Rightarrow> jsval" where
  "child_value (Paragraph x) = x"
| "child_value (Bare x) = x"

definition valid_row :: "result_row \<Rightarrow> bool" where
  "valid_row row \<longleftrightarrow>
     valid_child (heading row) \<and> valid_child (child_value (url_line row)) \<and>
     valid_child (child_value (snippet_line row)) \<and>
     valid_child (child_value (summary_line row))"

fun valid_block :: "block \<Rightarrow> bool" where
  "valid_block (ResultList rows) = list_all valid_row rows"
| "valid_block _ = True"

text \<open>
  The rendering of a view state: the component function runs, and React takes the
  children it returns. The model covers the states whose \<open>results\<close> is an array, which
  are all the states the application reaches; for another value it gives \<open>None\<close>.
\<close>

definition render :: "view_state \<Rightarrow> (js_error + block list) option" where
  "render v =
     (case results v of
        JArr rs \<Rightarrow>
          Some (case App_main (loading v) (hasSearched v) rs of
                  Inl e \<Rightarrow> Inl e
                | Inr bs \<Rightarrow>
                    if list_all valid_block bs then Inr bs
                    else Inl (Error ''Objects are not valid as a React child''))
      | _ \<Rightarrow> None)"

text \<open>
  The elements of \<open>results\<close> that can be shown: not \<open>null\<close> or \<open>undefined\<close>, with
  nothing but valid children in the four properties the row displays.
\<close>

definition property :: "jsval \<Rightarrow> string \<Rightarrow> jsval" where
  "property r name = (case get_prop r (ascii name) of Inl e \<Rightarrow> JUndefined | Inr x \<Rightarrow> x)"

definition displayable :: "jsval \<Rightarrow> bool" where
  "displayable r \<longleftrightarrow>
     r \<noteq> JNull \<and> r \<noteq> JUndefined \<and>
     valid_child (property r ''title'') \<and> valid_child (property r ''url'') \<and>
     valid_child (property r ''snippet'') \<and> valid_child (property r ''summary'')"

text \<open>The row that stands for an element of \<open>results\<close> in the result list.\<close>

definition row_of :: "jsval \<Rightarrow> result_row" where
  "row_of r =
     \<lparr>href = property r ''url'',
      heading = (if truthy (property r ''title'') then property r ''title''
                 else JStr (ascii ''Untitled'')),
      url_line = and_paragraph (property r ''url''),
      snippet_line = and_paragraph (property r ''snippet''),
      summary_line = and_paragraph (property r ''summary'')\<rparr>"

section \<open>Reading the request back\<close>

text \<open>
  The receiving side of the request, to state what the encoding achieves: the query part
  of a URL is split into parameters at \<open>&\<close>, each parameter into name and value at its
  first \<open>=\<close>, and a value is decoded as \<open>decodeURIComponent\<close> does.
\<close>

fun split_on :: "'a \<Rightarrow> 'a list \<Rightarrow> 'a list list" where
  "split_on sep [] = [] # []"
| "split_on sep (x # xs) =
     (if x = sep then [] # split_on sep xs
      else (case split_on sep xs of [] \<Rightarrow> [x] # [] | p # ps \<Rightarrow> (x # p) # ps))"

definition query_parameters :: "jsstring \<Rightarrow> (jsstring \<times> jsstring) list" where
  "query_parameters s =
     map (\<lambda>p. (takeWhile (\<lambda>c. c \<noteq> 0x3D) p, drop 1 (dropWhile (\<lambda>c. c \<noteq> 0x3D) p)))
       (split_on 0x26 s)"

definition hex_value :: "code_unit \<Rightarrow> nat option" where
  "hex_value c =
     (if 0x30 \<le> c \<and> c \<le> 0x39 then Some (unat c - 0x30)
      else if 0x41 \<le> c \<and> c \<le> 0x46 then Some (unat c - 0x41 + 10)
      else if 0x61 \<le> c \<and> c \<le> 0x66 then Some (unat c - 0x61 + 10)
      else None)"

text \<open>First pass of the decoder: every \<open>%XY\<close> becomes an octet.\<close>

datatype token = Lit code_unit | Octet nat

fun unescape :: "jsstring \<Rightarrow> js_error + token list" where
  "unescape [] = Inr []"
| "unescape (c # cs) =
     (if c = 0x25 then
        (case cs of
           h1 # h2 # rest \<Rightarrow>
             (case (hex_value h1, hex_value h2) of
                (Some a, Some b) \<Rightarrow>
                  (case unescape rest of
                     Inl e \<Rightarrow> Inl e
                   | Inr ts \<Rightarrow> Inr (Octet (16 * a + b) # ts))
              | _ \<Rightarrow> Inl URIError)
         | _ \<Rightarrow> Inl URIError)
      else (case unescape cs of Inl e \<Rightarrow> Inl e | Inr ts \<Rightarrow> Inr (Lit c # ts)))"

definition continuation :: "nat \<Rightarrow> bool" where
  "continuation b \<longleftrightarrow> 0x80 \<le> b \<and> b < 0xC0"

text \<open>A code point as one code unit or as a surrogate pair.\<close>

definition utf16_encode :: "nat \<Rightarrow> jsstring" where
  "utf16_encode cp =
     (if cp < 0x10000 then [of_nat cp]
      else [of_nat (0xD800 + (cp - 0x10000) div 0x400),
            of_nat (0xDC00 + (cp - 0x10000) mod 0x400)])"

text \<open>
  Second pass: a run of octets is read as the UTF-8 encoding of a code point; overlong
  forms, surrogates and values above \<open>0x10FFFF\<close> are refused.
\<close>

fun utf8_tokens :: "token list \<Rightarrow> js_error + jsstring" where
  "utf8_tokens [] = Inr []"
| "utf8_tokens (Lit c # ts) =
     (case utf8_tokens ts of Inl e \<Rightarrow> Inl e | Inr r \<Rightarrow> Inr (c # r))"
| "utf8_tokens (Octet b # ts) =
     (if b < 0x80 then
        (case utf8_tokens ts of Inl e \<Rightarrow> Inl e | Inr r \<Rightarrow> Inr (of_nat b # r))
      else if 0xC0 \<le> b \<and> b < 0xE0 then
        (case ts of
           Octet b1 # ts1 \<Rightarrow>
             (let cp = (b - 0xC0) * 64 + (b1 - 0x80) in
              if continuation b1 \<and> 0x80 \<le> cp then
                (case utf8_tokens ts1 of
                   Inl e \<Rightarrow> Inl e
                 | Inr r \<Rightarrow> Inr (utf16_encode cp @ r))
              else Inl URIError)
         | _ \<Rightarrow> Inl URIError)
      else if 0xE0 \<le> b \<and> b < 0xF0 then
        (case ts of
           Octet b1 # Octet b2 # ts2 \<Rightarrow>
             (let cp = (b - 0xE0) * 4096 + (b1 - 0x80) * 64 + (b2 - 0x80) in
              if continuation b1 \<and> continuation b2 \<and> 0x800 \<le> cp \<and>
                 \<not> (0xD800 \<le> cp \<and> cp < 0xE000) then
                (case utf8_tokens ts2 of
                   Inl e \<Rightarrow> Inl e
                 | Inr r \<Rightarrow> Inr (utf16_encode cp @ r))
              else Inl URIError)
         | _ \<Rightarrow> Inl URIError)
      else if 0xF0 \<le> b \<and> b < 0xF8 then
        (case ts of
           Octet b1 # Octet b2 # Octet b3 # ts3 \<Rightarrow>
             (let cp = (b - 0xF0) * 262144 + (b1 - 0x80) * 4096 + (b2 - 0x80) * 64 +
                       (b3 - 0x80) in
              if continuation b1 \<and> continuation b2 \<and> continuation b3 \<and>
                 0x10000 \<le> cp \<and> cp < 0x110000 then
                (case utf8_tokens ts3 of
                   Inl e \<Rightarrow> Inl e
                 | Inr r \<Rightarrow> Inr (utf16_encode cp @ r))
              else Inl URIError)
         | _ \<Rightarrow> Inl URIError)
      else Inl URIError)"

definition decodeURIComponent :: "jsstring \<Rightarrow> js_error + jsstring" where
  "decodeURIComponent s =
     (case unescape s of Inl e \<Rightarrow> Inl e | Inr ts \<Rightarrow> utf8_tokens ts)"

text \<open>An encoded string and the string its two decoding passes give.\<close>

definition decodes_to :: "jsstring \<Rightarrow> jsstring \<Rightarrow> bool" where
  "decodes_to enc q \<longleftrightarrow> (\<exists>ts. unescape enc = Inr ts \<and> utf8_tokens ts = Inr q)"

section \<open>A sample session\<close>

text \<open>
  The user types \<open>cats\<close> and submits; the backend answers with one result, which has
  no summary.
\<close>

definition sample_base :: jsstring where
  "sample_base = ascii ''http://h''"

definition sample_row :: jsval where
  "sample_row =
     JObj [(ascii ''title'', JStr (ascii ''A'')),
           (ascii ''url'', JStr (ascii ''http://a'')),
           (ascii ''snippet'', JStr (ascii ''s''))]"

definition sample_response :: response where
  "sample_response =
     \<lparr>status = 200, json = Fulfilled (JObj [(ascii ''results'', JArr [sample_row])])\<rparr>"

definition typed_cats :: app where
  "typed_cats = step sample_base initial_app (Change (ascii ''cats''))"

definition sample_events :: "event list" where
  "sample_events = [Change (ascii ''cats''), Submit, Settle 0 (Fulfilled sample_response)]"

text \<open>
  After \<open>cats\<close> has been submitted, the user submits \<open>dogs\<close>, and the backend
  answers the second request first, with status 500.
\<close>

definition overtaking :: "event list" where
  "overtaking =
     [Change (ascii ''dogs''), Submit, Settle 1 (Fulfilled \<lparr>status = 500, json = Pending\<rparr>)]"

definition overtaken :: app where
  "overtaken =
     \<lparr>view = \<lparr>query = ascii ''dogs'', results = JArr [], loading = False, hasSearched = True\<rparr>,
      inflight = [ascii ''cats''],
      fetched = [ascii ''http://h/search?q=cats'', ascii ''http://h/search?q=dogs'']\<rparr>"

text \<open>The invariant behind the relation between \<open>results\<close>, \<open>loading\<close> and \<open>hasSearched\<close>.\<close>

definition searched_inv :: "app \<Rightarrow> bool" where
  "searched_inv a \<longleftrightarrow>
     (results (view a) \<noteq> JArr [] \<or> loading (view a) \<or> inflight a \<noteq> [] \<longrightarrow>
      hasSearched (view a))"

text \<open>
  The table of visual states, as a function of \<open>loading\<close>, \<open>hasSearched\<close> and
  \<open>results.length\<close>: the skeleton with its six rows when loading, the message when
  not loading after a search without results, the result list when not loading with
  results.
\<close>

datatype visual = Skeleton nat | NoResults | Populated

definition visual_state :: "bool \<Rightarrow> bool \<Rightarrow> nat \<Rightarrow> visual list" where
  "visual_state ld hs n =
     (if ld then [Skeleton 6] else []) @
     (if \<not> ld \<and> hs \<and> n = 0 then [NoResults] else []) @
     (if \<not> ld \<and> 0 < n then [Populated] else [])"

text \<open>The visual state a rendered block stands for; the spacer stands for none.\<close>

fun visual_of :: "block \<Rightarrow> visual list" where
  "visual_of Spacer = []"
| "visual_of (SkeletonList n) = [Skeleton n]"
| "visual_of EmptyMessage = [NoResults]"
| "visual_of (ResultList rows) = [Populated]"

section \<open>The search view: auxiliary facts\<close>

lemma dropWhile_all_iff: "(\<forall>x\<in>set (dropWhile P xs). P x) \<longleftrightarrow> (\<forall>x\<in>set xs. P x)"
  by (induction xs) auto

lemma trim_empty_iff: "trim s = [] \<longleftrightarrow> (\<forall>c\<in>set s. is_white_space c)"
  by (simp add: trim_def dropWhile_all_iff)

lemma handleSearch_blank:
  "\<forall>c\<in>set (query v). is_white_space c \<Longrightarrow> handleSearch v = (v, None)"
  by (simp add: handleSearch_def trim_empty_iff)

lemma searchQuery_not_rejected: "searchQuery API_BASE fetch q \<noteq> Rejected e"
  by (cases "searchQuery_try API_BASE fetch q") (simp_all add: searchQuery_def)

lemma step_hasSearched:
  "hasSearched (view a) \<Longrightarrow> hasSearched (view (step API_BASE a ev))"
  by (cases ev)
     (auto simp: onChange_def clear_def submit_def handleSearch_def settle_def
        handleSearch_resume_def split: promise.splits)

lemma step_searched_inv: "searched_inv a \<Longrightarrow> searched_inv (step API_BASE a ev)"
  by (cases ev)
     (auto simp: searched_inv_def onChange_def clear_def submit_def handleSearch_def settle_def
        handleSearch_resume_def split: promise.splits if_splits)

lemma run_searched_inv: "searched_inv a \<Longrightarrow> searched_inv (run API_BASE a evs)"
  unfolding run_def
  by (induction evs arbitrary: a) (simp_all add: step_searched_inv)

lemma initial_searched_inv: "searched_inv initial_app"
  by (simp add: searched_inv_def initial_app_def initial_view_def)

lemma step_isArray:
  "isArray (results (view a)) \<Longrightarrow> isArray (results (view (step API_BASE a ev)))"
  by (cases ev)
     (auto simp: onChange_def clear_def submit_def handleSearch_def settle_def
        handleSearch_resume_def split: promise.splits)

lemma run_isArray:
  "isArray (results (view a)) \<Longrightarrow> isArray (results (view (run API_BASE a evs)))"
  unfolding run_def
  by (induction evs arbitrary: a) (simp_all add: step_isArray)

lemma invalid_child_truthy: "\<not> valid_child x \<Longrightarrow> truthy x"
  by (cases x) simp_all

lemma result_item_displayable:
  assumes "displayable r"
  shows "\<exists>row. result_item r = Inr row \<and> valid_row row"
proof -
  from assms have "r \<noteq> JNull" "r \<noteq> JUndefined"
    by (simp_all add: displayable_def)
  then obtain u t sn su where g:
    "get_prop r (ascii ''url'') = Inr u" "get_prop r (ascii ''title'') = Inr t"
    "get_prop r (ascii ''snippet'') = Inr sn" "get_prop r (ascii ''summary'') = Inr su"
    by (cases r) simp_all
  with assms have "valid_child u" "valid_child t" "valid_child sn" "valid_child su"
    by (simp_all add: displayable_def property_def)
  with g show ?thesis
    by (simp add: result_item_def valid_row_def and_paragraph_def)
qed

lemma result_item_not_displayable:
  assumes "\<not> displayable r" and "result_item r = Inr row"
  shows "\<not> valid_row row"
proof -
  from assms(2) obtain u t sn su where g:
    "get_prop r (ascii ''url'') = Inr u" "get_prop r (ascii ''title'') = Inr t"
    "get_prop r (ascii ''snippet'') = Inr sn" "get_prop r (ascii ''summary'') = Inr su"
    by (auto simp: result_item_def split: sum.splits)
  then have n: "r \<noteq> JNull" "r \<noteq> JUndefined"
    by auto
  from assms(2) g have row: "heading row = (if truthy t then t else JStr (ascii ''Untitled''))"
    "child_value (url_line row) = u" "child_value (snippet_line row) = sn"
    "child_value (summary_line row) = su"
    by (auto simp: result_item_def and_paragraph_def)
  from assms(1) n g have "\<not> valid_child t \<or> \<not> valid_child u \<or> \<not> valid_child sn \<or> \<not> valid_child su"
    by (auto simp: displayable_def property_def)
  then show ?thesis
    using row invalid_child_truthy [of t] by (auto simp: valid_row_def)
qed

lemma map_items_displayable:
  "\<forall>r\<in>set rs. displayable r \<Longrightarrow>
   \<exists>rows. map_items rs = Inr rows \<and> length rows = length rs \<and> list_all valid_row rows"
proof (induction rs)
  case Nil
  then show ?case by simp
next
  case (Cons r rs)
  then obtain row rows where
    "result_item r = Inr row" "valid_row row" "map_items rs = Inr rows"
    "length rows = length rs" "list_all valid_row rows"
    using result_item_displayable [of r] by auto
  then show ?case by simp
qed

lemma map_items_not_displayable:
  "map_items rs = Inr rows \<Longrightarrow> r \<in> set rs \<Longrightarrow> \<not> displayable r \<Longrightarrow> \<not> list_all valid_row rows"
proof (induction rs arbitrary: rows)
  case Nil
  then show ?case by simp
next
  case (Cons x xs)
  from Cons.prems(1) obtain row rows' where s:
    "result_item x = Inr row" "map_items xs = Inr rows'" "rows = row # rows'"
    by (auto split: sum.splits)
  show ?case
  proof (cases "r = x")
    case True
    with Cons.prems(3) s(1) have "\<not> valid_row row"
      by (auto dest: result_item_not_displayable)
    with s(3) show ?thesis by simp
  next
    case False
    with Cons.prems(2) have "r \<in> set xs" by simp
    from Cons.IH [OF s(2) this Cons.prems(3)] s(3) show ?thesis by simp
  qed
qed

lemma nth_without:
  assumes "j < length xs" "i < length xs" "i \<noteq> j"
  shows "(if j < i then i - 1 else i) < length (take j xs @ drop (Suc j) xs) \<and>
         (take j xs @ drop (Suc j) xs) ! (if j < i then i - 1 else i) = xs ! i"
proof (cases "j < i")
  case True
  then have a: "\<not> i - 1 < j" "Suc j + (i - 1 - j) = i"
    by simp_all
  from True assms(2) have b: "i - 1 < length xs - 1"
    by simp
  have l: "length (take j xs) = j"
    using assms(1) by simp
  have "(take j xs @ drop (Suc j) xs) ! (i - 1) = drop (Suc j) xs ! (i - 1 - j)"
    using a(1) l by (simp add: nth_append)
  also have "\<dots> = xs ! (Suc j + (i - 1 - j))"
    using assms(2) a(2) by (intro nth_drop) simp
  also have "\<dots> = xs ! i"
    by (simp only: a(2))
  finally show ?thesis
    using True b assms(1) by simp
next
  case False
  with assms have "i < j" by simp
  with assms show ?thesis
    by (simp add: nth_append)
qed

lemma step_keeps_call:
  assumes "i < length (inflight b)" and "removes API_BASE b ev \<noteq> Some i"
  shows "shift API_BASE b i ev < length (inflight (step API_BASE b ev)) \<and>
         inflight (step API_BASE b ev) ! shift API_BASE b i ev = inflight b ! i"
proof (cases ev)
  case (Change val)
  with assms show ?thesis by (simp add: shift_def removes_def)
next
  case (KeyDown key)
  with assms show ?thesis by (simp add: shift_def removes_def)
next
  case Submit
  with assms show ?thesis
    by (auto simp: shift_def removes_def submit_def handleSearch_def nth_append)
next
  case (Settle j outcome)
  show ?thesis
  proof (cases "removes API_BASE b ev")
    case None
    then have "inflight (step API_BASE b ev) = inflight b"
      using Settle by (auto simp: removes_def settle_def split: if_splits promise.splits)
    with None assms show ?thesis by (simp add: shift_def)
  next
    case (Some k)
    with Settle have k: "k = j" "j < length (inflight b)"
      "searchQuery API_BASE (always outcome) (inflight b ! j) \<noteq> Pending"
      by (auto simp: removes_def split: if_splits)
    then have "inflight (step API_BASE b ev) =
        take j (inflight b) @ drop (Suc j) (inflight b)"
      using Settle by (auto simp: settle_def split: promise.splits)
    moreover have "i \<noteq> j" using assms(2) Some k by simp
    ultimately show ?thesis
      using Some k nth_without [OF k(2) assms(1)] by (simp add: shift_def)
  qed
qed

lemma follow_run:
  "i < length (inflight b) \<Longrightarrow> follow API_BASE b i evs = Some (c, k) \<Longrightarrow>
   c = run API_BASE b evs \<and> k < length (inflight c) \<and> inflight c ! k = inflight b ! i"
proof (induction evs arbitrary: b i)
  case Nil
  then show ?case by (simp add: run_def)
next
  case (Cons ev evs)
  from Cons.prems(2) have r: "removes API_BASE b ev \<noteq> Some i"
    and f: "follow API_BASE (step API_BASE b ev) (shift API_BASE b i ev) evs = Some (c, k)"
    by (simp_all split: if_splits)
  from step_keeps_call [OF Cons.prems(1) r]
  have s: "shift API_BASE b i ev < length (inflight (step API_BASE b ev))"
    "inflight (step API_BASE b ev) ! shift API_BASE b i ev = inflight b ! i"
    by simp_all
  from Cons.IH [OF s(1) f]
  have c: "c = run API_BASE (step API_BASE b ev) evs" "k < length (inflight c)"
    "inflight c ! k = inflight (step API_BASE b ev) ! shift API_BASE b i ev"
    by blast+
  have "run API_BASE (step API_BASE b ev) evs = run API_BASE b (ev # evs)"
    by (simp add: run_def)
  with c s(2) show ?case
    by simp
qed

lemma settle_fulfilled:
  assumes "i < length (inflight b)"
    and "searchQuery API_BASE (always outcome) (inflight b ! i) = Fulfilled data"
  shows "step API_BASE b (Settle i outcome) =
           b\<lparr>view := (view b)\<lparr>results := (if isArray data then data else JArr []),
                               loading := False\<rparr>,
             inflight := take i (inflight b) @ drop (Suc i) (inflight b)\<rparr>"
  using assms by (simp add: settle_def handleSearch_resume_def)

lemma result_item_row_of:
  assumes "r \<noteq> JNull" "r \<noteq> JUndefined"
  shows "result_item r = Inr (row_of r)"
  using assms by (cases r) (simp_all add: result_item_def row_of_def property_def)

lemma map_items_row_of:
  "\<forall>r\<in>set rs. r \<noteq> JNull \<and> r \<noteq> JUndefined \<Longrightarrow> map_items rs = Inr (map row_of rs)"
  by (induction rs) (simp_all add: result_item_row_of)

lemma map_items_displayable_rows:
  assumes "\<forall>r\<in>set rs. displayable r"
  shows "map_items rs = Inr (map row_of rs) \<and> list_all valid_row (map row_of rs)"
proof -
  from assms have "\<forall>r\<in>set rs. r \<noteq> JNull \<and> r \<noteq> JUndefined"
    by (simp add: displayable_def)
  then have m: "map_items rs = Inr (map row_of rs)"
    by (rule map_items_row_of)
  from map_items_displayable [OF assms] m show ?thesis
    by auto
qed

subsection \<open>The sample session, evaluated\<close>

lemma encode_cats: "encodeURIComponent (ascii ''cats'') = Inr (ascii ''cats'')"
  by (simp add: ascii_def unescaped_def)

lemma url_cats:
  "request_url sample_base (ascii ''cats'') = Inr (ascii ''http://h/search?q=cats'')"
  by (simp add: request_url_def encode_cats sample_base_def) (simp add: ascii_def)

lemma trim_cats: "trim (ascii ''cats'') = ascii ''cats''"
  by (simp add: trim_def ascii_def is_white_space_def)

lemma cats_not_empty: "ascii ''cats'' \<noteq> []"
  by (simp add: ascii_def)

lemma searchQuery_sample:
  "searchQuery sample_base (always (Fulfilled sample_response)) (ascii ''cats'') =
     Fulfilled (JArr [sample_row])"
  by (simp add: searchQuery_def searchQuery_try_def url_cats sample_response_def ok_def
        always_def)

lemma view_typed_cats: "view typed_cats = initial_view\<lparr>query := ascii ''cats''\<rparr>"
  by (simp add: typed_cats_def onChange_def initial_app_def)

lemma inflight_typed_cats: "inflight typed_cats = []"
  by (simp add: typed_cats_def initial_app_def)

lemma submit_typed_cats:
  "submit sample_base typed_cats =
     \<lparr>view = \<lparr>query = ascii ''cats'', results = JArr [], loading = True, hasSearched = True\<rparr>,
      inflight = [ascii ''cats''],
      fetched = [ascii ''http://h/search?q=cats'']\<rparr>"
  by (simp add: submit_def handleSearch_def typed_cats_def onChange_def initial_app_def
        initial_view_def trim_cats cats_not_empty url_cats)

lemma run_sample:
  "run sample_base initial_app sample_events =
     \<lparr>view = \<lparr>query = ascii ''cats'', results = JArr [sample_row], loading = False,
              hasSearched = True\<rparr>,
      inflight = [],
      fetched = [ascii ''http://h/search?q=cats'']\<rparr>"
proof -
  have "run sample_base initial_app sample_events =
        step sample_base (step sample_base typed_cats Submit) (Settle 0 (Fulfilled sample_response))"
    by (simp add: run_def sample_events_def typed_cats_def)
  then show ?thesis
    by (simp add: submit_typed_cats settle_def searchQuery_sample handleSearch_resume_def)
qed

lemma result_item_sample:
  "result_item sample_row =
     Inr \<lparr>href = JStr (ascii ''http://a''), heading = JStr (ascii ''A''),
          url_line = Paragraph (JStr (ascii ''http://a'')),
          snippet_line = Paragraph (JStr (ascii ''s'')),
          summary_line = Bare JUndefined\<rparr>"
  by (simp add: result_item_def sample_row_def and_paragraph_def) (simp add: ascii_def)

lemma displayable_sample: "displayable sample_row"
  by (simp add: displayable_def property_def sample_row_def)

lemma null_results_run:
  "run sample_base initial_app
     [Change (ascii ''cats''), Submit,
      Settle 0 (Fulfilled \<lparr>status = 200,
                            json = Fulfilled (JObj [(ascii ''results'', JArr [JNull])])\<rparr>)] =
     \<lparr>view = \<lparr>query = ascii ''cats'', results = JArr [JNull], loading = False,
              hasSearched = True\<rparr>,
      inflight = [],
      fetched = [ascii ''http://h/search?q=cats'']\<rparr>"
proof -
  have "searchQuery sample_base
      (always (Fulfilled \<lparr>status = 200,
                          json = Fulfilled (JObj [(ascii ''results'', JArr [JNull])])\<rparr>))
      (ascii ''cats'') = Fulfilled (JArr [JNull])"
    by (simp add: searchQuery_def searchQuery_try_def url_cats ok_def always_def)
  moreover have "run sample_base initial_app
     [Change (ascii ''cats''), Submit,
      Settle 0 (Fulfilled \<lparr>status = 200,
                            json = Fulfilled (JObj [(ascii ''results'', JArr [JNull])])\<rparr>)] =
     settle sample_base 0
       (Fulfilled \<lparr>status = 200, json = Fulfilled (JObj [(ascii ''results'', JArr [JNull])])\<rparr>)
       (submit sample_base typed_cats)"
    by (simp add: run_def typed_cats_def)
  ultimately show ?thesis
    by (simp add: submit_typed_cats settle_def handleSearch_resume_def)
qed

lemma encode_dogs: "encodeURIComponent (ascii ''dogs'') = Inr (ascii ''dogs'')"
  by (simp add: ascii_def unescaped_def)

lemma url_dogs:
  "request_url sample_base (ascii ''dogs'') = Inr (ascii ''http://h/search?q=dogs'')"
  by (simp add: request_url_def encode_dogs sample_base_def) (simp add: ascii_def)

lemma trim_dogs: "trim (ascii ''dogs'') = ascii ''dogs''"
  by (simp add: trim_def ascii_def is_white_space_def)

lemma dogs_not_empty: "ascii ''dogs'' \<noteq> []"
  by (simp add: ascii_def)

lemma searchQuery_dogs_500:
  "searchQuery sample_base (always (Fulfilled \<lparr>status = 500, json = Pending\<rparr>)) (ascii ''dogs'') =
     Fulfilled (JArr [])"
  by (simp add: searchQuery_def searchQuery_try_def url_dogs ok_def always_def)

lemma submit_dogs:
  "submit sample_base
     ((submit sample_base typed_cats)\<lparr>view := onChange (ascii ''dogs'')
        (view (submit sample_base typed_cats))\<rparr>) =
     \<lparr>view = \<lparr>query = ascii ''dogs'', results = JArr [], loading = True, hasSearched = True\<rparr>,
      inflight = [ascii ''cats'', ascii ''dogs''],
      fetched = [ascii ''http://h/search?q=cats'', ascii ''http://h/search?q=dogs'']\<rparr>"
  by (simp add: submit_typed_cats onChange_def)
     (simp add: submit_def handleSearch_def trim_dogs dogs_not_empty url_dogs)

lemma follow_overtaking:
  "follow sample_base (submit sample_base typed_cats) 0 overtaking = Some (overtaken, 0)"
proof -
  let ?s1 = "(submit sample_base typed_cats)\<lparr>view := onChange (ascii ''dogs'')
        (view (submit sample_base typed_cats))\<rparr>"
  let ?s2 = "submit sample_base ?s1"
  have r: "removes sample_base ?s2 (Settle 1 (Fulfilled \<lparr>status = 500, json = Pending\<rparr>)) = Some 1"
    by (simp add: submit_dogs removes_def searchQuery_dogs_500)
  have s: "settle sample_base 1 (Fulfilled \<lparr>status = 500, json = Pending\<rparr>) ?s2 = overtaken"
    by (simp add: submit_dogs settle_def searchQuery_dogs_500 handleSearch_resume_def
          overtaken_def)
  have "follow sample_base (submit sample_base typed_cats) 0 overtaking =
      follow sample_base ?s2 0 [Settle 1 (Fulfilled \<lparr>status = 500, json = Pending\<rparr>)]"
    by (simp add: overtaking_def removes_def shift_def)
  also have "\<dots> = Some (overtaken, 0)"
    using r s by (simp add: shift_def)
  finally show ?thesis .
qed

lemma view_overtaken:
  "view overtaken =
     \<lparr>query = ascii ''dogs'', results = JArr [], loading = False, hasSearched = True\<rparr>"
  by (simp add: overtaken_def)

lemma inflight_overtaken: "inflight overtaken = [ascii ''cats'']"
  by (simp add: overtaken_def)

section \<open>Percent-encoding: auxiliary facts\<close>

lemma recombine2: "(cp div 64) * 64 + cp mod 64 = (cp::nat)"
  by simp

lemma div_4096: "(cp::nat) div 4096 = cp div 64 div 64"
  by (simp add: div_mult2_eq)

lemma div_262144: "(cp::nat) div 262144 = cp div 64 div 64 div 64"
  by (simp add: div_mult2_eq)

lemma recombine3: "(cp div 4096) * 4096 + (cp div 64 mod 64) * 64 + cp mod 64 = (cp::nat)"
proof -
  define y where "y = cp div 64"
  define q where "q = y div 64"
  define r where "r = y mod 64"
  have y: "y = q * 64 + r" by (simp add: q_def r_def)
  have cp: "cp = y * 64 + cp mod 64" by (simp add: y_def)
  have "cp div 4096 = q" by (simp add: div_4096 q_def y_def)
  then have "(cp div 4096) * 4096 + (cp div 64 mod 64) * 64 + cp mod 64 = q * 4096 + r * 64 + cp mod 64"
    by (simp add: r_def y_def)
  also have "\<dots> = y * 64 + cp mod 64" by (simp add: y)
  also have "\<dots> = cp" using cp by simp
  finally show ?thesis .
qed

lemma recombine4:
  "(cp div 262144) * 262144 + (cp div 4096 mod 64) * 4096 + (cp div 64 mod 64) * 64 + cp mod 64 = (cp::nat)"
proof -
  define y where "y = cp div 64"
  define z where "z = y div 64"
  define q where "q = z div 64"
  define r where "r = z mod 64"
  define s where "s = y mod 64"
  have z: "z = q * 64 + r" by (simp add: q_def r_def)
  have y: "y = z * 64 + s" by (simp add: z_def s_def)
  have cp: "cp = y * 64 + cp mod 64" by (simp add: y_def)
  have "cp div 262144 = q" "cp div 4096 mod 64 = r" "cp div 64 mod 64 = s"
    by (simp_all add: div_262144 div_4096 z_def y_def q_def r_def s_def)
  then have "(cp div 262144) * 262144 + (cp div 4096 mod 64) * 4096 + (cp div 64 mod 64) * 64 + cp mod 64
      = q * 262144 + r * 4096 + s * 64 + cp mod 64"
    by simp
  also have "\<dots> = y * 64 + cp mod 64"
    by (simp add: y z)
  also have "\<dots> = cp" using cp by simp
  finally show ?thesis .
qed

lemma utf8_tokens_1:
  assumes "cp < 0x80"
  shows "utf8_tokens (Octet cp # ts) =
           (case utf8_tokens ts of Inl e \<Rightarrow> Inl e | Inr r \<Rightarrow> Inr (utf16_encode cp @ r))"
  using assms by (simp add: utf16_encode_def split: sum.splits)

lemma utf8_tokens_2:
  assumes "0x80 \<le> cp" "cp < 0x800"
  shows "utf8_tokens (Octet (0xC0 + cp div 64) # Octet (0x80 + cp mod 64) # ts) =
           (case utf8_tokens ts of Inl e \<Rightarrow> Inl e | Inr r \<Rightarrow> Inr (utf16_encode cp @ r))"
proof -
  have b: "cp div 64 < 32" using assms by simp
  have m: "cp mod 64 < 64" by simp
  show ?thesis
    using assms b m
    by (simp add: continuation_def Let_def recombine2 split: sum.splits)
qed

lemma utf8_tokens_3:
  assumes "0x800 \<le> cp" "cp < 0x10000" "\<not> (0xD800 \<le> cp \<and> cp < 0xE000)"
  shows "utf8_tokens (Octet (0xE0 + cp div 4096) # Octet (0x80 + cp div 64 mod 64) #
                      Octet (0x80 + cp mod 64) # ts) =
           (case utf8_tokens ts of Inl e \<Rightarrow> Inl e | Inr r \<Rightarrow> Inr (utf16_encode cp @ r))"
proof -
  have b: "cp div 4096 < 16" using assms by simp
  have m: "cp mod 64 < 64" "cp div 64 mod 64 < 64" by simp_all
  show ?thesis
    using assms b m
    by (simp add: continuation_def Let_def recombine3 split: sum.splits)
qed

lemma utf8_tokens_4:
  assumes "0x10000 \<le> cp" "cp < 0x110000"
  shows "utf8_tokens (Octet (0xF0 + cp div 262144) # Octet (0x80 + cp div 4096 mod 64) #
                      Octet (0x80 + cp div 64 mod 64) # Octet (0x80 + cp mod 64) # ts) =
           (case utf8_tokens ts of Inl e \<Rightarrow> Inl e | Inr r \<Rightarrow> Inr (utf16_encode cp @ r))"
proof -
  have b: "cp div 262144 < 8" using assms by simp
  have m: "cp mod 64 < 64" "cp div 64 mod 64 < 64" "cp div 4096 mod 64 < 64" by simp_all
  show ?thesis
    using assms b m
    by (simp add: continuation_def Let_def recombine4 split: sum.splits)
qed

lemma utf8_tokens_utf8_encode:
  assumes "cp < 0x110000" "\<not> (0xD800 \<le> cp \<and> cp < 0xE000)"
  shows "utf8_tokens (map Octet (utf8_encode cp) @ ts) =
           (case utf8_tokens ts of Inl e \<Rightarrow> Inl e | Inr r \<Rightarrow> Inr (utf16_encode cp @ r))"
proof -
  consider "cp < 0x80" | "0x80 \<le> cp" "cp < 0x800" | "0x800 \<le> cp" "cp < 0x10000"
    | "0x10000 \<le> cp"
    by linarith
  then show ?thesis
  proof cases
    case 1
    then show ?thesis by (simp add: utf8_encode_def utf8_tokens_1 del: utf8_tokens.simps)
  next
    case 2
    then show ?thesis by (simp add: utf8_encode_def utf8_tokens_2 del: utf8_tokens.simps)
  next
    case 3
    then show ?thesis using assms by (simp add: utf8_encode_def utf8_tokens_3 del: utf8_tokens.simps)
  next
    case 4
    then show ?thesis using assms by (simp add: utf8_encode_def utf8_tokens_4 del: utf8_tokens.simps)
  qed
qed

lemma utf8_encode_octets: "cp < 0x110000 \<Longrightarrow> b \<in> set (utf8_encode cp) \<Longrightarrow> b < 256"
proof -
  assume cp: "cp < 0x110000" and b: "b \<in> set (utf8_encode cp)"
  have "cp div 262144 < 8" using cp by simp
  moreover have "cp < 0x10000 \<Longrightarrow> cp div 4096 < 16" by simp
  moreover have "cp < 0x800 \<Longrightarrow> cp div 64 < 32" by simp
  moreover have "cp mod 64 < 64" "cp div 64 mod 64 < 64" "cp div 4096 mod 64 < 64" by simp_all
  ultimately show ?thesis
    using b by (auto simp: utf8_encode_def split: if_splits)
qed

lemma hex_range: "k < 16 \<Longrightarrow> k \<in> {0, 1, 2, 3, 4, 5, 6, 7, 8, 9, 10, 11, 12, 13, 14, 15::nat}"
  by simp arith

lemma hex_value_hex_digit: "n < 16 \<Longrightarrow> hex_value (hex_digit n) = Some n"
  by (drule hex_range) (elim insertE emptyE; simp add: hex_value_def hex_digit_def)

lemma unescaped_hex_digit: "n < 16 \<Longrightarrow> unescaped (hex_digit n)"
  by (drule hex_range) (elim insertE emptyE; simp add: unescaped_def hex_digit_def)

lemma unescape_percent_octet:
  assumes "b < 256"
  shows "unescape (percent_octet b @ rest) =
           (case unescape rest of Inl e \<Rightarrow> Inl e | Inr ts \<Rightarrow> Inr (Octet b # ts))"
proof -
  have "b div 16 < 16" "b mod 16 < 16" using assms by auto
  then show ?thesis
    by (simp add: percent_octet_def hex_value_hex_digit split: sum.splits)
qed

lemma unescape_octets:
  "\<forall>b\<in>set bs. b < 256 \<Longrightarrow>
   unescape (concat (map percent_octet bs) @ rest) =
     (case unescape rest of Inl e \<Rightarrow> Inl e | Inr ts \<Rightarrow> Inr (map Octet bs @ ts))"
  by (induction bs) (simp_all add: unescape_percent_octet split: sum.splits)

lemma unescape_percent_encode:
  "cp < 0x110000 \<Longrightarrow>
   unescape (percent_encode cp @ rest) =
     (case unescape rest of Inl e \<Rightarrow> Inl e | Inr ts \<Rightarrow> Inr (map Octet (utf8_encode cp) @ ts))"
  unfolding percent_encode_def
  by (rule unescape_octets) (blast intro: utf8_encode_octets)

lemma not_percent_unescaped: "unescaped c \<Longrightarrow> c \<noteq> 0x25"
  by (auto simp: unescaped_def)

lemma unescaped_not_surrogate:
  "unescaped c \<Longrightarrow> \<not> is_trailing_surrogate c \<and> \<not> is_leading_surrogate c"
  by (auto simp: unescaped_def is_trailing_surrogate_def is_leading_surrogate_def word_le_nat_alt)

lemma set_percent_octet: "b < 256 \<Longrightarrow> c \<in> set (percent_octet b) \<Longrightarrow> unescaped c \<or> c = 0x25"
proof -
  assume "b < 256" and c: "c \<in> set (percent_octet b)"
  then have "b div 16 < 16" "b mod 16 < 16" by auto
  then have "unescaped (hex_digit (b div 16))" "unescaped (hex_digit (b mod 16))"
    by (simp_all add: unescaped_hex_digit)
  with c show ?thesis by (auto simp: percent_octet_def)
qed

lemma set_percent_encode:
  "cp < 0x110000 \<Longrightarrow> c \<in> set (percent_encode cp) \<Longrightarrow> unescaped c \<or> c = 0x25"
  by (auto simp: percent_encode_def dest: utf8_encode_octets set_percent_octet)

lemma unat_code_unit: "unat (c::code_unit) < 0x10000"
  using unsigned_less [of c, where ?'a = nat] by simp

lemma utf16_encode_unat: "utf16_encode (unat (c::code_unit)) = [c]"
  by (simp add: utf16_encode_def unat_code_unit)

lemma surrogate_pair_range:
  assumes "is_leading_surrogate c" "is_trailing_surrogate d"
  shows "0x10000 \<le> surrogate_pair_to_code_point c d"
    and "surrogate_pair_to_code_point c d < 0x110000"
proof -
  have "unat c \<le> 0xDBFF" "unat d \<le> 0xDFFF"
    using assms
    by (simp_all add: is_leading_surrogate_def is_trailing_surrogate_def word_le_nat_alt)
  then have "unat c - 0xD800 \<le> 0x3FF" "unat d - 0xDC00 \<le> 0x3FF"
    by linarith+
  then have "(unat c - 0xD800) * 0x400 \<le> 0x3FF * 0x400" "unat d - 0xDC00 \<le> 0x3FF"
    by (simp_all only: mult_le_mono1)
  then show "surrogate_pair_to_code_point c d < 0x110000"
    unfolding surrogate_pair_to_code_point_def by linarith
  show "0x10000 \<le> surrogate_pair_to_code_point c d"
    by (simp add: surrogate_pair_to_code_point_def)
qed

lemma utf16_encode_surrogate_pair:
  assumes "is_leading_surrogate c" "is_trailing_surrogate d"
  shows "utf16_encode (surrogate_pair_to_code_point c d) = [c, d]"
proof -
  define a where "a = unat c - 0xD800"
  define b where "b = unat d - 0xDC00"
  have "0xD800 \<le> unat c" "0xDC00 \<le> unat d" "unat d \<le> 0xDFFF"
    using assms
    by (simp_all add: is_leading_surrogate_def is_trailing_surrogate_def word_le_nat_alt)
  then have c: "0xD800 + a = unat c" and d: "0xDC00 + b = unat d" and b: "b < 0x400"
    unfolding a_def b_def by linarith+
  have cp: "surrogate_pair_to_code_point c d = a * 0x400 + b + 0x10000"
    by (simp add: surrogate_pair_to_code_point_def a_def b_def)
  have "(a * 0x400 + b) div 0x400 = a" "(a * 0x400 + b) mod 0x400 = b"
    using b by simp_all
  then show ?thesis
    by (simp add: utf16_encode_def cp c d)
qed

lemma enc_unescaped:
  "unescaped c \<Longrightarrow> encodeURIComponent (c # cs) =
     (case encodeURIComponent cs of Inl e \<Rightarrow> Inl e | Inr r \<Rightarrow> Inr (c # r))"
  by simp

lemma enc_trailing:
  "\<not> unescaped c \<Longrightarrow> is_trailing_surrogate c \<Longrightarrow> encodeURIComponent (c # cs) = Inl URIError"
  by simp

lemma enc_leading_alone:
  "\<not> unescaped c \<Longrightarrow> \<not> is_trailing_surrogate c \<Longrightarrow> is_leading_surrogate c \<Longrightarrow>
   encodeURIComponent [c] = Inl URIError"
  by simp

lemma enc_leading_unpaired:
  "\<not> unescaped c \<Longrightarrow> \<not> is_trailing_surrogate c \<Longrightarrow> is_leading_surrogate c \<Longrightarrow>
   \<not> is_trailing_surrogate d \<Longrightarrow> encodeURIComponent (c # d # ds) = Inl URIError"
  by simp

lemma enc_pair:
  "\<not> unescaped c \<Longrightarrow> \<not> is_trailing_surrogate c \<Longrightarrow> is_leading_surrogate c \<Longrightarrow>
   is_trailing_surrogate d \<Longrightarrow>
   encodeURIComponent (c # d # ds) =
     (case encodeURIComponent ds of
        Inl e \<Rightarrow> Inl e
      | Inr r \<Rightarrow> Inr (percent_encode (surrogate_pair_to_code_point c d) @ r))"
  by simp

lemma enc_single:
  "\<not> unescaped c \<Longrightarrow> \<not> is_trailing_surrogate c \<Longrightarrow> \<not> is_leading_surrogate c \<Longrightarrow>
   encodeURIComponent (c # cs) =
     (case encodeURIComponent cs of
        Inl e \<Rightarrow> Inl e
      | Inr r \<Rightarrow> Inr (percent_encode (unat c) @ r))"
  by simp


lemma decodes_to_decode: "decodes_to enc q \<Longrightarrow> decodeURIComponent enc = Inr q"
  by (auto simp: decodes_to_def decodeURIComponent_def)

lemma decodes_to_Nil: "decodes_to [] []"
  by (simp add: decodes_to_def)

lemma decodes_to_unescaped:
  assumes "unescaped c" "decodes_to r cs"
  shows "decodes_to (c # r) (c # cs)"
  using assms not_percent_unescaped [of c] by (auto simp: decodes_to_def)

lemma decodes_to_percent:
  assumes "cp < 0x110000" "\<not> (0xD800 \<le> cp \<and> cp < 0xE000)" "decodes_to r cs"
  shows "decodes_to (percent_encode cp @ r) (utf16_encode cp @ cs)"
proof -
  from assms(3) obtain ts where ts: "unescape r = Inr ts" "utf8_tokens ts = Inr cs"
    by (auto simp: decodes_to_def)
  have "unescape (percent_encode cp @ r) = Inr (map Octet (utf8_encode cp) @ ts)"
    using assms(1) ts(1) by (simp add: unescape_percent_encode)
  moreover have "utf8_tokens (map Octet (utf8_encode cp) @ ts) = Inr (utf16_encode cp @ cs)"
    using assms(1,2) ts(2) by (simp add: utf8_tokens_utf8_encode)
  ultimately show ?thesis
    by (simp add: decodes_to_def)
qed

lemma not_surrogate_unat:
  assumes "\<not> is_trailing_surrogate c" "\<not> is_leading_surrogate c"
  shows "\<not> (0xD800 \<le> unat c \<and> unat c < 0xE000)"
  using assms
  by (auto simp: is_trailing_surrogate_def is_leading_surrogate_def word_le_nat_alt)


lemma bind_Inr:
  "(case x of Inl e \<Rightarrow> Inl e | Inr r \<Rightarrow> Inr (f r)) = Inr y \<Longrightarrow> \<exists>r. x = Inr r \<and> y = f r"
  by (cases x) auto

lemma encode_Cons_cases:
  assumes "encodeURIComponent (c # cs) = Inr enc"
  obtains
    (unescaped) r where "unescaped c" "encodeURIComponent cs = Inr r" "enc = c # r"
  | (pair) d ds r where "is_leading_surrogate c" "is_trailing_surrogate d" "cs = d # ds"
      "encodeURIComponent ds = Inr r"
      "enc = percent_encode (surrogate_pair_to_code_point c d) @ r"
  | (single) r where "\<not> is_trailing_surrogate c" "\<not> is_leading_surrogate c"
      "encodeURIComponent cs = Inr r" "enc = percent_encode (unat c) @ r"
proof (cases "unescaped c")
  case True
  from assms obtain r where "encodeURIComponent cs = Inr r" "enc = c # r"
    unfolding enc_unescaped [OF True] by (blast dest: bind_Inr)
  with True show ?thesis by (rule unescaped)
next
  case False
  note unesc = this
  have nt: "\<not> is_trailing_surrogate c"
  proof
    assume "is_trailing_surrogate c"
    then have "encodeURIComponent (c # cs) = Inl URIError"
      by (rule enc_trailing [OF unesc])
    with assms show False by (simp del: encodeURIComponent.simps)
  qed
  show ?thesis
  proof (cases "is_leading_surrogate c")
    case True
    note lead = this
    show ?thesis
    proof (cases cs)
      case Nil
      with assms enc_leading_alone [OF unesc nt lead] show ?thesis
        by (simp del: encodeURIComponent.simps)
    next
      case (Cons d ds)
      have td: "is_trailing_surrogate d"
      proof (rule ccontr)
        assume "\<not> is_trailing_surrogate d"
        then have "encodeURIComponent (c # d # ds) = Inl URIError"
          by (rule enc_leading_unpaired [OF unesc nt lead])
        with assms Cons show False
          by (simp del: encodeURIComponent.simps)
      qed
      from assms obtain r where
        "encodeURIComponent ds = Inr r"
        "enc = percent_encode (surrogate_pair_to_code_point c d) @ r"
        unfolding Cons enc_pair [OF unesc nt lead td] by (blast dest: bind_Inr)
      with lead td Cons show ?thesis by (rule pair)
    qed
  next
    case False
    from assms obtain r where
      "encodeURIComponent cs = Inr r" "enc = percent_encode (unat c) @ r"
      unfolding enc_single [OF unesc nt False] by (blast dest: bind_Inr)
    with nt False show ?thesis by (rule single)
  qed
qed

lemma encode_decodes:
  "encodeURIComponent q = Inr enc \<Longrightarrow> decodes_to enc q"
proof (induction "length q" arbitrary: q enc rule: less_induct)
  case less
  show ?case
  proof (cases q)
    case Nil
    with less.prems show ?thesis by (simp add: decodes_to_Nil)
  next
    case (Cons c cs)
    from less.prems [unfolded Cons] show ?thesis
    proof (cases rule: encode_Cons_cases)
      case (unescaped r)
      have "decodes_to r cs"
        using less.hyps [of cs r] unescaped(2) Cons by simp
      with unescaped(1) show ?thesis
        unfolding Cons unescaped(3) by (rule decodes_to_unescaped)
    next
      case (pair d ds r)
      have "decodes_to r ds"
        using less.hyps [of ds r] pair(3,4) Cons by simp
      then have "decodes_to enc (utf16_encode (surrogate_pair_to_code_point c d) @ ds)"
        unfolding pair(5)
        using surrogate_pair_range [OF pair(1,2)]
        by (intro decodes_to_percent) simp_all
      then show ?thesis
        using pair(1,2,3) Cons by (simp add: utf16_encode_surrogate_pair)
    next
      case (single r)
      have "decodes_to r cs"
        using less.hyps [of cs r] single(3) Cons by simp
      then have "decodes_to enc (utf16_encode (unat c) @ cs)"
        unfolding single(4)
        using not_surrogate_unat [OF single(1,2)] unat_code_unit [of c]
        by (intro decodes_to_percent) simp_all
      then show ?thesis
        using Cons by (simp add: utf16_encode_unat)
    qed
  qed
qed

lemma encode_charset:
  "encodeURIComponent q = Inr enc \<Longrightarrow> x \<in> set enc \<Longrightarrow> unescaped x \<or> x = 0x25"
proof (induction "length q" arbitrary: q enc rule: less_induct)
  case less
  show ?case
  proof (cases q)
    case Nil
    with less.prems show ?thesis by simp
  next
    case (Cons c cs)
    from less.prems(1) [unfolded Cons] show ?thesis
    proof (cases rule: encode_Cons_cases)
      case (unescaped r)
      have "x \<in> set r \<Longrightarrow> unescaped x \<or> x = 0x25"
        using less.hyps [of cs r] unescaped(2) Cons by simp
      with less.prems(2) unescaped(1,3) show ?thesis by auto
    next
      case (pair d ds r)
      have "x \<in> set r \<Longrightarrow> unescaped x \<or> x = 0x25"
        using less.hyps [of ds r] pair(3,4) Cons by simp
      moreover have "x \<in> set (percent_encode (surrogate_pair_to_code_point c d)) \<Longrightarrow>
          unescaped x \<or> x = 0x25"
        using surrogate_pair_range(2) [OF pair(1,2)] by (rule set_percent_encode)
      ultimately show ?thesis
        using less.prems(2) pair(5) by auto
    next
      case (single r)
      have "x \<in> set r \<Longrightarrow> unescaped x \<or> x = 0x25"
        using less.hyps [of cs r] single(3) Cons by simp
      moreover have "x \<in> set (percent_encode (unat c)) \<Longrightarrow> unescaped x \<or> x = 0x25"
        using unat_code_unit [of c] by (intro set_percent_encode) simp_all
      ultimately show ?thesis
        using less.prems(2) single(4) by auto
    qed
  qed
qed

lemma well_formed_Cons_cases:
  assumes "well_formed (c # cs)"
  obtains
    (pair) d ds where "is_leading_surrogate c" "\<not> is_trailing_surrogate c"
      "is_trailing_surrogate d" "cs = d # ds" "well_formed ds"
  | (single) "\<not> is_trailing_surrogate c" "\<not> is_leading_surrogate c" "well_formed cs"
proof (cases "is_leading_surrogate c")
  case True
  with assms have "\<not> is_trailing_surrogate c"
    by (simp split: if_splits)
  with True assms pair show ?thesis
    by (cases cs) auto
next
  case False
  with assms single show ?thesis
    by (simp split: if_splits)
qed

lemma encode_well_formed:
  "well_formed q \<Longrightarrow> \<exists>enc. encodeURIComponent q = Inr enc"
proof (induction "length q" arbitrary: q rule: less_induct)
  case less
  show ?case
  proof (cases q)
    case Nil
    then show ?thesis by simp
  next
    case (Cons c cs)
    from less.prems [unfolded Cons] show ?thesis
    proof (cases rule: well_formed_Cons_cases)
      case (pair d ds)
      have unesc: "\<not> unescaped c"
        using pair(1) unescaped_not_surrogate [of c] by blast
      obtain r where "encodeURIComponent ds = Inr r"
        using less.hyps [of ds] pair(4,5) Cons by auto
      then show ?thesis
        unfolding Cons pair(4) enc_pair [OF unesc pair(2,1,3)] by simp
    next
      case single
      obtain r where r: "encodeURIComponent cs = Inr r"
        using less.hyps [of cs] single(3) Cons by auto
      show ?thesis
      proof (cases "unescaped c")
        case True
        with r show ?thesis
          unfolding Cons enc_unescaped [OF True] by simp
      next
        case False
        with r show ?thesis
          unfolding Cons enc_single [OF False single(1,2)] by simp
      qed
    qed
  qed
qed

lemma encode_Inr_well_formed:
  "encodeURIComponent q = Inr enc \<Longrightarrow> well_formed q"
proof (induction "length q" arbitrary: q enc rule: less_induct)
  case less
  show ?case
  proof (cases q)
    case Nil
    then show ?thesis by simp
  next
    case (Cons c cs)
    from less.prems [unfolded Cons] show ?thesis
    proof (cases rule: encode_Cons_cases)
      case (unescaped r)
      have "well_formed cs"
        using less.hyps [of cs r] unescaped(2) Cons by simp
      then show ?thesis
        using unescaped_not_surrogate [OF unescaped(1)] Cons by simp
    next
      case (pair d ds r)
      have "well_formed ds"
        using less.hyps [of ds r] pair(3,4) Cons by simp
      moreover have "\<not> is_trailing_surrogate c"
        using pair(1)
        by (auto simp: is_leading_surrogate_def is_trailing_surrogate_def word_le_nat_alt)
      ultimately show ?thesis
        using pair(1,2,3) Cons by simp
    next
      case (single r)
      have "well_formed cs"
        using less.hyps [of cs r] single(3) Cons by simp
      then show ?thesis
        using single(1,2) Cons by simp
    qed
  qed
qed

lemma encode_error: "encodeURIComponent q = Inl e \<Longrightarrow> e = URIError"
proof (induction "length q" arbitrary: q rule: less_induct)
  case less
  show ?case
  proof (cases q)
    case Nil
    with less.prems show ?thesis by simp
  next
    case (Cons c cs)
    have tail: "encodeURIComponent cs = Inl e \<Longrightarrow> e = URIError"
      using less.hyps [of cs] Cons by simp
    show ?thesis
    proof (cases "unescaped c")
      case True
      with less.prems tail show ?thesis
        unfolding Cons enc_unescaped [OF True] by (simp split: sum.splits)
    next
      case False
      note unesc = this
      show ?thesis
      proof (cases "is_trailing_surrogate c")
        case True
        with less.prems show ?thesis
          unfolding Cons enc_trailing [OF unesc True] by simp
      next
        case False
        note nt = this
        show ?thesis
        proof (cases "is_leading_surrogate c")
          case True
          note lead = this
          show ?thesis
          proof (cases cs)
            case Nil
            with less.prems show ?thesis
              unfolding Cons Nil enc_leading_alone [OF unesc nt lead] by simp
          next
            case (Cons d ds)
            note cs = this
            have tail2: "encodeURIComponent ds = Inl e \<Longrightarrow> e = URIError"
              using less.hyps [of ds] cs \<open>q = c # cs\<close> by simp
            show ?thesis
            proof (cases "is_trailing_surrogate d")
              case True
              with less.prems tail2 show ?thesis
                unfolding \<open>q = c # cs\<close> cs enc_pair [OF unesc nt lead True]
                by (simp split: sum.splits)
            next
              case False
              with less.prems show ?thesis
                unfolding \<open>q = c # cs\<close> cs enc_leading_unpaired [OF unesc nt lead False]
                by simp
            qed
          qed
        next
          case False
          with less.prems tail show ?thesis
            unfolding Cons enc_single [OF unesc nt False] by (simp split: sum.splits)
        qed
      qed
    qed
  qed
qed

lemma encode_ill_formed: "\<not> well_formed q \<Longrightarrow> encodeURIComponent q = Inl URIError"
proof (cases "encodeURIComponent q")
  case (Inl e)
  then show ?thesis using encode_error [of q e] by simp
next
  case (Inr enc)
  then have "well_formed q" by (rule encode_Inr_well_formed)
  then show "\<not> well_formed q \<Longrightarrow> ?thesis" by simp
qed

lemma split_on_absent: "sep \<notin> set xs \<Longrightarrow> split_on sep xs = [xs]"
  by (induction xs) auto

lemma not_unescaped_amp: "\<not> unescaped 0x26"
  by (simp add: unescaped_def)

lemma query_parameters_single:
  assumes "0x26 \<notin> set enc"
  shows "query_parameters (ascii ''q='' @ enc) = [(ascii ''q'', enc)]"
proof -
  have "(0x26::code_unit) \<notin> set (ascii ''q='' @ enc)"
    using assms by (simp add: ascii_def)
  then have "split_on 0x26 (ascii ''q='' @ enc) = [ascii ''q='' @ enc]"
    by (rule split_on_absent)
  then show ?thesis
    by (simp add: query_parameters_def) (simp add: ascii_def)
qed

section \<open>Properties of the API client\<close>

text \<open>
  C1. For every query string, \<open>searchQuery\<close> never rejects and never throws: it is an
  async function, so whatever is thrown in its body would reject the returned promise,
  and the \<open>catch\<close> block turns every rejection into the empty array. In particular,
  on a non-2xx status, on a network failure (the promise of \<open>fetch\<close> rejects) and on
  a body that does not parse (the promise of \<open>res.json()\<close> rejects), the returned
  promise resolves with \<open>[]\<close>.
\<close>

theorem searchQuery_swallows_failures:
  "searchQuery API_BASE fetch q \<noteq> Rejected e \<and>
   (request_url API_BASE q = Inr url \<and> fetch url = Fulfilled res \<and> \<not> ok res \<longrightarrow>
      searchQuery API_BASE fetch q = Fulfilled (JArr [])) \<and>
   (request_url API_BASE q = Inr url \<and> fetch url = Rejected e1 \<longrightarrow>
      searchQuery API_BASE fetch q = Fulfilled (JArr [])) \<and>
   (request_url API_BASE q = Inr url \<and> fetch url = Fulfilled res \<and> ok res \<and>
    json res = Rejected e2 \<longrightarrow>
      searchQuery API_BASE fetch q = Fulfilled (JArr []))"
proof (intro conjI impI)
  show "searchQuery API_BASE fetch q \<noteq> Rejected e"
    by (rule searchQuery_not_rejected)
qed (simp_all add: searchQuery_def searchQuery_try_def)

theorem searchQuery_swallows_failures_witness:
  "searchQuery sample_base (always (Fulfilled \<lparr>status = 500, json = Pending\<rparr>)) (ascii ''cats'')
     = Fulfilled (JArr []) \<and>
   searchQuery sample_base (always (Rejected TypeError)) (ascii ''cats'') = Fulfilled (JArr []) \<and>
   searchQuery sample_base (always (Fulfilled \<lparr>status = 200, json = Rejected SyntaxError\<rparr>))
     (ascii ''cats'') = Fulfilled (JArr [])"
proof -
  have u: "request_url sample_base (ascii ''cats'') = Inr (ascii ''http://h/search?q=cats'')"
    by (rule url_cats)
  have "\<not> ok \<lparr>status = 500, json = Pending\<rparr>"
    by (simp add: ok_def)
  then have a: "searchQuery sample_base (always (Fulfilled \<lparr>status = 500, json = Pending\<rparr>))
      (ascii ''cats'') = Fulfilled (JArr [])"
    using u
      searchQuery_swallows_failures [of sample_base
        "always (Fulfilled \<lparr>status = 500, json = Pending\<rparr>)" "ascii ''cats''" TypeError
        "ascii ''http://h/search?q=cats''" "\<lparr>status = 500, json = Pending\<rparr>"]
    by (simp add: always_def)
  have b: "searchQuery sample_base (always (Rejected TypeError)) (ascii ''cats'') =
      Fulfilled (JArr [])"
    using u
      searchQuery_swallows_failures [of sample_base "always (Rejected TypeError)"
        "ascii ''cats''" TypeError "ascii ''http://h/search?q=cats''" _ TypeError]
    by (simp add: always_def)
  have "ok \<lparr>status = 200, json = Rejected SyntaxError\<rparr>"
    by (simp add: ok_def)
  then have c: "searchQuery sample_base
      (always (Fulfilled \<lparr>status = 200, json = Rejected SyntaxError\<rparr>)) (ascii ''cats'') =
      Fulfilled (JArr [])"
    using u
      searchQuery_swallows_failures [of sample_base
        "always (Fulfilled \<lparr>status = 200, json = Rejected SyntaxError\<rparr>)" "ascii ''cats''"
        TypeError "ascii ''http://h/search?q=cats''"
        "\<lparr>status = 200, json = Rejected SyntaxError\<rparr>" _ SyntaxError]
    by (simp add: always_def)
  from a b c show ?thesis by simp
qed

text \<open>
  C4, as the code has it. For every 2xx response whose body parses, \<open>searchQuery\<close>
  resolves with the \<open>results\<close> field of the body when that field is truthy (every
  array is), and with \<open>[]\<close> otherwise: when the field is absent, when it is falsy
  (\<open>null\<close>, \<open>false\<close>, \<open>0\<close>, the empty string), and when the body is \<open>null\<close>.
\<close>

theorem searchQuery_truthy_results:
  assumes "request_url API_BASE q = Inr url" and "fetch url = Fulfilled res" and "ok res"
    and "json res = Fulfilled data"
  shows "(data = JObj kvs \<and> map_of kvs (ascii ''results'') = Some r \<and> truthy r \<longrightarrow>
            searchQuery API_BASE fetch q = Fulfilled r) \<and>
         (data = JObj kvs \<and> map_of kvs (ascii ''results'') = Some r \<and> \<not> truthy r \<longrightarrow>
            searchQuery API_BASE fetch q = Fulfilled (JArr [])) \<and>
         (data = JObj kvs \<and> map_of kvs (ascii ''results'') = None \<longrightarrow>
            searchQuery API_BASE fetch q = Fulfilled (JArr [])) \<and>
         (data = JNull \<longrightarrow> searchQuery API_BASE fetch q = Fulfilled (JArr [])) \<and>
         searchQuery API_BASE fetch q =
           Fulfilled (case get_prop data (ascii ''results'') of
                        Inl err \<Rightarrow> JArr []
                      | Inr x \<Rightarrow> if truthy x then x else JArr [])"
  using assms
  by (auto simp: searchQuery_def searchQuery_try_def split: sum.splits)

theorem searchQuery_truthy_results_witness:
  "searchQuery sample_base (always (Fulfilled sample_response)) (ascii ''cats'') =
     Fulfilled (JArr [sample_row]) \<and>
   searchQuery sample_base
     (always (Fulfilled \<lparr>status = 200, json = Fulfilled (JObj [(ascii ''results'', JNull)])\<rparr>))
     (ascii ''cats'') = Fulfilled (JArr []) \<and>
   searchQuery sample_base (always (Fulfilled \<lparr>status = 200, json = Fulfilled (JObj [])\<rparr>))
     (ascii ''cats'') = Fulfilled (JArr []) \<and>
   searchQuery sample_base (always (Fulfilled \<lparr>status = 200, json = Fulfilled JNull\<rparr>))
     (ascii ''cats'') = Fulfilled (JArr [])"
proof -
  have u: "request_url sample_base (ascii ''cats'') = Inr (ascii ''http://h/search?q=cats'')"
    by (rule url_cats)
  have a: "searchQuery sample_base (always (Fulfilled sample_response)) (ascii ''cats'') =
      Fulfilled (JArr [sample_row])"
    using searchQuery_truthy_results [OF u, of "always (Fulfilled sample_response)"
        sample_response "JObj [(ascii ''results'', JArr [sample_row])]"
        "[(ascii ''results'', JArr [sample_row])]" "JArr [sample_row]"]
    by (simp add: always_def sample_response_def ok_def)
  have b: "searchQuery sample_base
      (always (Fulfilled \<lparr>status = 200, json = Fulfilled (JObj [(ascii ''results'', JNull)])\<rparr>))
      (ascii ''cats'') = Fulfilled (JArr [])"
    using searchQuery_truthy_results [OF u,
        of "always (Fulfilled \<lparr>status = 200, json = Fulfilled (JObj [(ascii ''results'', JNull)])\<rparr>)"
        "\<lparr>status = 200, json = Fulfilled (JObj [(ascii ''results'', JNull)])\<rparr>"
        "JObj [(ascii ''results'', JNull)]" "[(ascii ''results'', JNull)]" JNull]
    by (simp add: always_def ok_def)
  have c: "searchQuery sample_base
      (always (Fulfilled \<lparr>status = 200, json = Fulfilled (JObj [])\<rparr>)) (ascii ''cats'') =
      Fulfilled (JArr [])"
    using searchQuery_truthy_results [OF u,
        of "always (Fulfilled \<lparr>status = 200, json = Fulfilled (JObj [])\<rparr>)"
        "\<lparr>status = 200, json = Fulfilled (JObj [])\<rparr>" "JObj []" "[]"]
    by (simp add: always_def ok_def)
  have d: "searchQuery sample_base
      (always (Fulfilled \<lparr>status = 200, json = Fulfilled JNull\<rparr>)) (ascii ''cats'') =
      Fulfilled (JArr [])"
    using searchQuery_truthy_results [OF u,
        of "always (Fulfilled \<lparr>status = 200, json = Fulfilled JNull\<rparr>)"
        "\<lparr>status = 200, json = Fulfilled JNull\<rparr>" JNull]
    by (simp add: always_def ok_def)
  from a b c d show ?thesis by simp
qed

text \<open>
  C4 as stated fails: the body \<open>{"results": false}\<close> has a \<open>results\<close> field, and
  \<open>searchQuery\<close> resolves with \<open>[]\<close>, not with the field.
\<close>

theorem searchQuery_falsy_field_counterexample:
  "ok \<lparr>status = 200, json = Fulfilled (JObj [(ascii ''results'', JBool False)])\<rparr> \<and>
   get_prop (JObj [(ascii ''results'', JBool False)]) (ascii ''results'') = Inr (JBool False) \<and>
   searchQuery sample_base
     (always (Fulfilled \<lparr>status = 200,
                         json = Fulfilled (JObj [(ascii ''results'', JBool False)])\<rparr>))
     (ascii ''cats'') = Fulfilled (JArr []) \<and>
   JArr [] \<noteq> JBool False"
  by (simp add: searchQuery_def searchQuery_try_def url_cats ok_def always_def)

section \<open>Properties of the search view\<close>

text \<open>
  C2. For every submission with a query whose trimmed value is not blank, the submit
  handler sets \<open>loading\<close> and \<open>hasSearched\<close> to true before the call of
  \<open>searchQuery\<close> resolves (the call is then in flight, with the query as its
  argument). Whatever events come in between (typing, keys, other submissions, answers
  to other calls, in any order), the call stays in flight, and when it resolves, the
  handler sets \<open>results\<close> to the returned list (to \<open>[]\<close> for a value that is not an
  array) and \<open>loading\<close> to false. The same holds of every call in flight in every
  state.
\<close>

theorem submit_then_resolve:
  assumes "trim (query (view a)) \<noteq> []"
  shows "view (step API_BASE a Submit) = (view a)\<lparr>loading := True, hasSearched := True\<rparr> \<and>
         inflight (step API_BASE a Submit) = inflight a @ [query (view a)] \<and>
         (follow API_BASE (step API_BASE a Submit) (length (inflight a)) evs = Some (b, i) \<longrightarrow>
            b = run API_BASE (step API_BASE a Submit) evs \<and>
            i < length (inflight b) \<and> inflight b ! i = query (view a) \<and>
            (searchQuery API_BASE (always outcome) (query (view a)) = Fulfilled data \<longrightarrow>
               view (step API_BASE b (Settle i outcome)) =
                 (view b)\<lparr>results := (if isArray data then data else JArr []),
                          loading := False\<rparr> \<and>
               inflight (step API_BASE b (Settle i outcome)) =
                 take i (inflight b) @ drop (Suc i) (inflight b))) \<and>
         (j < length (inflight c) \<and>
          searchQuery API_BASE (always outcome) (inflight c ! j) = Fulfilled data \<longrightarrow>
            view (step API_BASE c (Settle j outcome)) =
              (view c)\<lparr>results := (if isArray data then data else JArr []),
                       loading := False\<rparr> \<and>
            inflight (step API_BASE c (Settle j outcome)) =
              take j (inflight c) @ drop (Suc j) (inflight c))"
proof (intro conjI impI)
  show v: "view (step API_BASE a Submit) = (view a)\<lparr>loading := True, hasSearched := True\<rparr>"
    using assms by (simp add: submit_def handleSearch_def)
  show n: "inflight (step API_BASE a Submit) = inflight a @ [query (view a)]"
    using assms by (simp add: submit_def handleSearch_def)
  {
    assume f: "follow API_BASE (step API_BASE a Submit) (length (inflight a)) evs = Some (b, i)"
    have "length (inflight a) < length (inflight (step API_BASE a Submit))"
      using n by simp
    from follow_run [OF this f]
    have t: "b = run API_BASE (step API_BASE a Submit) evs" "i < length (inflight b)"
      "inflight b ! i = inflight (step API_BASE a Submit) ! length (inflight a)"
      by blast+
    show "b = run API_BASE (step API_BASE a Submit) evs" and l: "i < length (inflight b)"
      by (rule t)+
    show q: "inflight b ! i = query (view a)"
      unfolding t(3) n by simp
    assume "searchQuery API_BASE (always outcome) (query (view a)) = Fulfilled data"
    then have "searchQuery API_BASE (always outcome) (inflight b ! i) = Fulfilled data"
      by (simp only: q)
    from settle_fulfilled [OF l this]
    show "view (step API_BASE b (Settle i outcome)) =
        (view b)\<lparr>results := (if isArray data then data else JArr []), loading := False\<rparr>"
      and "inflight (step API_BASE b (Settle i outcome)) =
        take i (inflight b) @ drop (Suc i) (inflight b)"
      by simp_all
  }
  {
    assume "j < length (inflight c) \<and>
      searchQuery API_BASE (always outcome) (inflight c ! j) = Fulfilled data"
    then have "j < length (inflight c)"
      "searchQuery API_BASE (always outcome) (inflight c ! j) = Fulfilled data"
      by simp_all
    from settle_fulfilled [OF this]
    show "view (step API_BASE c (Settle j outcome)) =
        (view c)\<lparr>results := (if isArray data then data else JArr []), loading := False\<rparr>"
      and "inflight (step API_BASE c (Settle j outcome)) =
        take j (inflight c) @ drop (Suc j) (inflight c)"
      by simp_all
  }
qed

theorem submit_then_resolve_witness:
  "trim (query (view typed_cats)) \<noteq> [] \<and>
   view (step sample_base typed_cats Submit) =
     \<lparr>query = ascii ''cats'', results = JArr [], loading = True, hasSearched = True\<rparr> \<and>
   inflight (step sample_base typed_cats Submit) = [ascii ''cats''] \<and>
   view (step sample_base (step sample_base typed_cats Submit)
           (Settle 0 (Fulfilled sample_response))) =
     \<lparr>query = ascii ''cats'', results = JArr [sample_row], loading = False,
      hasSearched = True\<rparr> \<and>
   follow sample_base (step sample_base typed_cats Submit) 0 overtaking = Some (overtaken, 0) \<and>
   overtaken = run sample_base (step sample_base typed_cats Submit) overtaking \<and>
   view (step sample_base overtaken (Settle 0 (Fulfilled sample_response))) =
     \<lparr>query = ascii ''dogs'', results = JArr [sample_row], loading = False,
      hasSearched = True\<rparr> \<and>
   inflight (step sample_base overtaken (Settle 0 (Fulfilled sample_response))) = []"
proof -
  have h: "trim (query (view typed_cats)) \<noteq> []"
    by (simp add: view_typed_cats trim_cats cats_not_empty)
  have q: "query (view typed_cats) = ascii ''cats''" and l: "length (inflight typed_cats) = 0"
    by (simp_all add: view_typed_cats inflight_typed_cats)
  have f0: "follow sample_base (step sample_base typed_cats Submit) 0 [] =
      Some (step sample_base typed_cats Submit, 0)"
    by simp
  have f: "follow sample_base (step sample_base typed_cats Submit) 0 overtaking =
      Some (overtaken, 0)"
    using follow_overtaking by simp
  have s: "searchQuery sample_base (always (Fulfilled sample_response)) (ascii ''cats'') =
      Fulfilled (JArr [sample_row])"
    by (rule searchQuery_sample)
  have a: "view (step sample_base typed_cats Submit) =
       \<lparr>query = ascii ''cats'', results = JArr [], loading = True, hasSearched = True\<rparr> \<and>
     inflight (step sample_base typed_cats Submit) = [ascii ''cats''] \<and>
     view (step sample_base (step sample_base typed_cats Submit)
           (Settle 0 (Fulfilled sample_response))) =
       \<lparr>query = ascii ''cats'', results = JArr [sample_row], loading = False,
        hasSearched = True\<rparr>"
    using submit_then_resolve [OF h, of sample_base "[]" "step sample_base typed_cats Submit" 0
        "Fulfilled sample_response" "JArr [sample_row]" 0 "step sample_base typed_cats Submit"]
      f0 s
    by (simp add: q l view_typed_cats inflight_typed_cats initial_view_def)
  have b: "overtaken = run sample_base (step sample_base typed_cats Submit) overtaking \<and>
     view (step sample_base overtaken (Settle 0 (Fulfilled sample_response))) =
       \<lparr>query = ascii ''dogs'', results = JArr [sample_row], loading = False,
        hasSearched = True\<rparr> \<and>
     inflight (step sample_base overtaken (Settle 0 (Fulfilled sample_response))) = []"
    using submit_then_resolve [OF h, of sample_base overtaking overtaken 0
        "Fulfilled sample_response" "JArr [sample_row]" 0 overtaken]
      f s
    by (simp add: q l view_overtaken inflight_overtaken)
  from h a f b show ?thesis by simp
qed

text \<open>
  C3. For every query string that is empty or consists only of whitespace (the characters
  \<open>trim\<close> strips), submitting is a no-op: \<open>handleSearch\<close> calls nothing, and the view
  state, the calls in flight and the requests made are unchanged.
\<close>

theorem blank_submit_is_noop:
  assumes "\<forall>c\<in>set (query (view a)). is_white_space c"
  shows "handleSearch (view a) = (view a, None) \<and> step API_BASE a Submit = a"
  using assms by (simp add: submit_def handleSearch_blank)

theorem blank_submit_is_noop_witness:
  "is_white_space 0x20 \<and> is_white_space 0x09 \<and> is_white_space 0x3000 \<and>
   step sample_base (step sample_base initial_app (Change [0x20, 0x09, 0x3000])) Submit =
     step sample_base initial_app (Change [0x20, 0x09, 0x3000]) \<and>
   step sample_base initial_app Submit = initial_app"
proof -
  have ws: "is_white_space 0x20" "is_white_space 0x09" "is_white_space 0x3000"
    by (simp_all add: is_white_space_def)
  then have h: "\<forall>c\<in>set (query (view (step sample_base initial_app
      (Change [0x20, 0x09, 0x3000])))). is_white_space c"
    by (simp add: onChange_def)
  have e: "\<forall>c\<in>set (query (view initial_app)). is_white_space c"
    by (simp add: initial_app_def initial_view_def)
  show ?thesis
    using ws blank_submit_is_noop [OF h, of sample_base]
      blank_submit_is_noop [OF e, of sample_base]
    by simp
qed

text \<open>
  C5. In every reachable state, \<open>loading\<close> and \<open>hasSearched\<close> are not both false
  while \<open>results\<close> is non-empty: \<open>results.length > 0\<close> implies that \<open>loading\<close> or
  \<open>hasSearched\<close> is true.
\<close>

theorem results_imply_search:
  assumes "results (view (run API_BASE initial_app evs)) = JArr rs" and "0 < length rs"
  shows "loading (view (run API_BASE initial_app evs)) \<or>
         hasSearched (view (run API_BASE initial_app evs))"
  using run_searched_inv [OF initial_searched_inv, of API_BASE evs] assms
  by (auto simp: searched_inv_def)

theorem results_imply_search_witness:
  "results (view (run sample_base initial_app sample_events)) = JArr [sample_row] \<and>
   0 < length [sample_row] \<and>
   hasSearched (view (run sample_base initial_app sample_events)) \<and>
   \<not> loading (view (run sample_base initial_app sample_events))"
proof -
  have r: "results (view (run sample_base initial_app sample_events)) = JArr [sample_row]"
    by (simp add: run_sample)
  have l: "0 < length [sample_row]"
    by simp
  have n: "\<not> loading (view (run sample_base initial_app sample_events))"
    by (simp add: run_sample)
  from results_imply_search [OF r l] n r show ?thesis
    by simp
qed

text \<open>
  C6. \<open>hasSearched\<close> is monotonic: from a state where it is true, no sequence of events
  (typing, submitting, Escape or another key, clearing the query, an answer of the
  network) leads to a state where it is false.
\<close>

theorem hasSearched_monotonic:
  "hasSearched (view a) \<Longrightarrow> hasSearched (view (run API_BASE a evs))"
  unfolding run_def
  by (induction evs arbitrary: a) (simp_all add: step_hasSearched)

theorem hasSearched_monotonic_witness:
  "hasSearched (view (submit sample_base typed_cats)) \<and>
   hasSearched (view (run sample_base (submit sample_base typed_cats)
     [KeyDown (ascii ''Escape''), Change [], Submit, Settle 0 (Rejected TypeError),
      Change (ascii ''cats'')]))"
proof -
  have h: "hasSearched (view (submit sample_base typed_cats))"
    by (simp add: submit_typed_cats)
  from h hasSearched_monotonic [OF h] show ?thesis
    by simp
qed

text \<open>
  C8. For every keydown of the Escape key on the window, the handler sets \<open>query\<close> to
  the empty string and leaves \<open>results\<close>, \<open>loading\<close> and \<open>hasSearched\<close> as they
  are, as well as the calls in flight; what is rendered below the header is unchanged, so
  a result list that was shown stays.
\<close>

theorem escape_clears_query_only:
  "view (step API_BASE a (KeyDown (ascii ''Escape''))) = (view a)\<lparr>query := []\<rparr> \<and>
   inflight (step API_BASE a (KeyDown (ascii ''Escape''))) = inflight a \<and>
   fetched (step API_BASE a (KeyDown (ascii ''Escape''))) = fetched a \<and>
   render (view (step API_BASE a (KeyDown (ascii ''Escape'')))) = render (view a)"
  by (simp add: clear_def render_def split: jsval.splits)

text \<open>
  C10. The \<open>results\<close> state is always an array: in every reachable state
  \<open>Array.isArray(results)\<close> holds, and when \<open>searchQuery\<close> resolves with a value that
  is not an array, the handler stores \<open>[]\<close>.
\<close>

theorem results_always_array:
  "isArray (results (view (run API_BASE initial_app evs))) \<and>
   (\<not> isArray data \<longrightarrow> results (handleSearch_resume data v) = JArr [])"
  by (simp add: run_isArray initial_app_def initial_view_def handleSearch_resume_def)

theorem results_always_array_witness:
  "\<not> isArray (JStr (ascii ''nope'')) \<and>
   searchQuery sample_base
     (always (Fulfilled \<lparr>status = 200,
        json = Fulfilled (JObj [(ascii ''results'', JStr (ascii ''nope''))])\<rparr>))
     (ascii ''cats'') = Fulfilled (JStr (ascii ''nope'')) \<and>
   results (handleSearch_resume (JStr (ascii ''nope'')) (view (submit sample_base typed_cats))) =
     JArr []"
proof -
  have h: "\<not> isArray (JStr (ascii ''nope''))"
    by simp
  have s: "searchQuery sample_base
     (always (Fulfilled \<lparr>status = 200,
        json = Fulfilled (JObj [(ascii ''results'', JStr (ascii ''nope''))])\<rparr>))
     (ascii ''cats'') = Fulfilled (JStr (ascii ''nope''))"
    by (simp add: searchQuery_def searchQuery_try_def url_cats ok_def always_def)
       (simp add: ascii_def)
  from h s results_always_array [of sample_base "[]" "JStr (ascii ''nope'')"
      "view (submit sample_base typed_cats)"]
  show ?thesis by simp
qed

text \<open>
  Where every element of \<open>results\<close> can be shown, what is rendered below the header
  follows the table of visual states, a function of \<open>loading\<close>, \<open>hasSearched\<close> and
  \<open>results.length\<close>: when loading, exactly six skeleton rows; when not loading,
  after a search, with no results, the message "No results yet"; when not loading with
  results, the result list, with the row of each element in the order of \<open>results\<close>.
  Whenever the component renders, at most one of the three is shown.
\<close>

theorem rendering_follows_table:
  assumes "results v = JArr rs"
  shows "(loading v \<longrightarrow>
            render v = Some (Inr ((if hasSearched v then [Spacer] else []) @ [SkeletonList 6]))) \<and>
         (\<not> loading v \<and> hasSearched v \<and> length rs = 0 \<longrightarrow>
            render v = Some (Inr [Spacer, EmptyMessage])) \<and>
         (\<not> loading v \<and> 0 < length rs \<and> (\<forall>r\<in>set rs. displayable r) \<longrightarrow>
            render v =
              Some (Inr ((if hasSearched v then [Spacer] else []) @
                         [ResultList (map row_of rs)]))) \<and>
         (\<not> loading v \<and> (\<exists>r\<in>set rs. \<not> displayable r) \<longrightarrow> (\<exists>e. render v = Some (Inl e))) \<and>
         (render v = Some (Inr bs) \<longrightarrow>
            concat (map visual_of bs) =
              visual_state (loading v) (hasSearched v) (length rs) \<and>
            length (concat (map visual_of bs)) \<le> 1)"
proof (intro conjI impI)
  assume "\<not> loading v \<and> 0 < length rs \<and> (\<forall>r\<in>set rs. displayable r)"
  then show "render v =
      Some (Inr ((if hasSearched v then [Spacer] else []) @ [ResultList (map row_of rs)]))"
    using map_items_displayable_rows [of rs] assms by (simp add: render_def App_main_def)
next
  assume a: "\<not> loading v \<and> (\<exists>r\<in>set rs. \<not> displayable r)"
  then obtain r where r: "r \<in> set rs" "\<not> displayable r"
    by blast
  then have ne: "0 < length rs"
    by (cases rs) simp_all
  show "\<exists>e. render v = Some (Inl e)"
  proof (cases "map_items rs")
    case (Inl e)
    with a ne assms show ?thesis
      by (simp add: render_def App_main_def)
  next
    case (Inr rows)
    then have "\<not> list_all valid_row rows"
      using r by (rule map_items_not_displayable)
    with Inr a ne assms show ?thesis
      by (simp add: render_def App_main_def)
  qed
next
  assume "render v = Some (Inr bs)"
  then show "concat (map visual_of bs) = visual_state (loading v) (hasSearched v) (length rs)"
    using assms
    by (auto simp: render_def App_main_def visual_state_def skeletonRows_def
          split: sum.splits if_splits)
next
  assume "render v = Some (Inr bs)"
  then show "length (concat (map visual_of bs)) \<le> 1"
    using assms
    by (auto simp: render_def App_main_def split: sum.splits if_splits)
qed (simp_all add: assms render_def App_main_def skeletonRows_def)

theorem rendering_follows_table_witness:
  "render \<lparr>query = ascii ''cats'', results = JArr [], loading = True, hasSearched = True\<rparr> =
     Some (Inr [Spacer, SkeletonList 6]) \<and>
   render \<lparr>query = ascii ''cats'', results = JArr [], loading = False, hasSearched = True\<rparr> =
     Some (Inr [Spacer, EmptyMessage]) \<and>
   render \<lparr>query = [], results = JArr [sample_row, JObj []], loading = False,
           hasSearched = True\<rparr> =
     Some (Inr [Spacer,
       ResultList [\<lparr>href = JStr (ascii ''http://a''), heading = JStr (ascii ''A''),
                    url_line = Paragraph (JStr (ascii ''http://a'')),
                    snippet_line = Paragraph (JStr (ascii ''s'')),
                    summary_line = Bare JUndefined\<rparr>,
                   \<lparr>href = JUndefined, heading = JStr (ascii ''Untitled''),
                    url_line = Bare JUndefined, snippet_line = Bare JUndefined,
                    summary_line = Bare JUndefined\<rparr>]]) \<and>
   render \<lparr>query = [], results = JArr [JObj [(ascii ''title'', JObj [])]], loading = False,
           hasSearched = True\<rparr> =
     Some (Inl (Error ''Objects are not valid as a React child'')) \<and>
   concat (map visual_of [Spacer, SkeletonList 6]) = visual_state True True 0"
proof -
  let ?ld = "\<lparr>query = ascii ''cats'', results = JArr [], loading = True, hasSearched = True\<rparr>"
  let ?em = "\<lparr>query = ascii ''cats'', results = JArr [], loading = False, hasSearched = True\<rparr>"
  let ?po = "\<lparr>query = [], results = JArr [sample_row, JObj []], loading = False,
           hasSearched = True\<rparr>"
  let ?ob = "\<lparr>query = [], results = JArr [JObj [(ascii ''title'', JObj [])]], loading = False,
           hasSearched = True\<rparr>"
  have a: "render ?ld = Some (Inr [Spacer, SkeletonList 6])"
    using rendering_follows_table [of ?ld "[]"] by simp
  have b: "render ?em = Some (Inr [Spacer, EmptyMessage])"
    using rendering_follows_table [of ?em "[]"] by simp
  have n: "\<forall>r\<in>set [sample_row, JObj []]. displayable r"
    by (simp add: displayable_sample) (simp add: displayable_def property_def)
  have r1: "row_of sample_row =
      \<lparr>href = JStr (ascii ''http://a''), heading = JStr (ascii ''A''),
       url_line = Paragraph (JStr (ascii ''http://a'')),
       snippet_line = Paragraph (JStr (ascii ''s'')),
       summary_line = Bare JUndefined\<rparr>"
    by (simp add: row_of_def property_def sample_row_def and_paragraph_def)
       (simp add: ascii_def)
  have r2: "row_of (JObj []) =
      \<lparr>href = JUndefined, heading = JStr (ascii ''Untitled''),
       url_line = Bare JUndefined, snippet_line = Bare JUndefined,
       summary_line = Bare JUndefined\<rparr>"
    by (simp add: row_of_def property_def and_paragraph_def)
  have c: "render ?po =
     Some (Inr [Spacer,
       ResultList [\<lparr>href = JStr (ascii ''http://a''), heading = JStr (ascii ''A''),
                    url_line = Paragraph (JStr (ascii ''http://a'')),
                    snippet_line = Paragraph (JStr (ascii ''s'')),
                    summary_line = Bare JUndefined\<rparr>,
                   \<lparr>href = JUndefined, heading = JStr (ascii ''Untitled''),
                    url_line = Bare JUndefined, snippet_line = Bare JUndefined,
                    summary_line = Bare JUndefined\<rparr>]])"
    using rendering_follows_table [of ?po "[sample_row, JObj []]"] n by (simp add: r1 r2)
  have o: "\<exists>r\<in>set [JObj [(ascii ''title'', JObj [])]]. \<not> displayable r"
    by (simp add: displayable_def property_def)
  have "\<exists>e. render ?ob = Some (Inl e)"
    using rendering_follows_table [of ?ob "[JObj [(ascii ''title'', JObj [])]]"] o by simp
  then have d: "render ?ob = Some (Inl (Error ''Objects are not valid as a React child''))"
    by (simp add: render_def App_main_def result_item_def and_paragraph_def valid_row_def)
  have e: "concat (map visual_of [Spacer, SkeletonList 6]) = visual_state True True 0"
    using rendering_follows_table [of ?ld "[]" "[Spacer, SkeletonList 6]"] a by simp
  from a b c d e show ?thesis by simp
qed

text \<open>
  C7. The rendered visual state is to be a function of \<open>loading\<close>, \<open>hasSearched\<close>
  and \<open>results.length\<close> that matches the table: six skeleton rows when loading, the
  message "No results yet" when not loading after a search with no results, the result
  list when not loading with results, never two of them. The code does not do this in
  the state reached when the backend answers \<open>{"results": [null]}\<close> with status 200:
  the state is not loading and \<open>results\<close> has one element, for which the table gives
  the result list, and the component throws a TypeError when it reads \<open>r.url\<close> from
  \<open>null\<close>. The guards of the code (\<open>Array.isArray\<close>, \<open>r.title ||\<close>,
  \<open>r.url &&\<close>) let other malformed answers through to a rendering and miss this one.
\<close>

theorem null_row_breaks_render:
  "view (run sample_base initial_app
     [Change (ascii ''cats''), Submit,
      Settle 0 (Fulfilled \<lparr>status = 200,
                            json = Fulfilled (JObj [(ascii ''results'', JArr [JNull])])\<rparr>)]) =
     \<lparr>query = ascii ''cats'', results = JArr [JNull], loading = False, hasSearched = True\<rparr> \<and>
   visual_state False True (length [JNull]) = [Populated] \<and>
   render (view (run sample_base initial_app
     [Change (ascii ''cats''), Submit,
      Settle 0 (Fulfilled \<lparr>status = 200,
                            json = Fulfilled (JObj [(ascii ''results'', JArr [JNull])])\<rparr>)])) =
     Some (Inl TypeError)"
  by (simp add: null_results_run render_def App_main_def result_item_def visual_state_def)

section \<open>Properties of the request URL\<close>

lemma encode_amp: "encodeURIComponent (ascii ''a&b'') = Inr (ascii ''a%26b'')"
  by (simp add: ascii_def unescaped_def is_trailing_surrogate_def is_leading_surrogate_def
        percent_encode_def utf8_encode_def percent_octet_def hex_digit_def)

lemma well_formed_amp: "well_formed (ascii ''a&b'')"
  by (simp add: ascii_def is_trailing_surrogate_def is_leading_surrogate_def)

lemma ill_formed_lone: "\<not> well_formed [0xD800]"
  by (simp add: is_trailing_surrogate_def is_leading_surrogate_def)

text \<open>
  C9, as the code has it. For every query string without an unpaired surrogate,
  \<open>searchQuery\<close> requests \<open>API_BASE\<close> followed by \<open>/search?q=\<close> and the encoded
  query; the encoded query consists of unreserved characters and \<open>%\<close> only, so that
  \<open>q=\<close> followed by it is one parameter, and decoding its value gives the query back.
  For a query with an unpaired surrogate, \<open>encodeURIComponent\<close> throws a URIError: no
  URL is built, nothing is fetched, and \<open>searchQuery\<close> resolves with \<open>[]\<close>.
\<close>

theorem request_url_roundtrip:
  "(well_formed q \<longrightarrow>
      (\<exists>enc. request_url API_BASE q = Inr (API_BASE @ ascii ''/search?q='' @ enc) \<and>
         (\<forall>c\<in>set enc. unescaped c \<or> c = 0x25) \<and>
         query_parameters (ascii ''q='' @ enc) = [(ascii ''q'', enc)] \<and>
         decodeURIComponent enc = Inr q)) \<and>
   (\<not> well_formed q \<longrightarrow>
      request_url API_BASE q = Inl URIError \<and>
      searchQuery API_BASE fetch q = Fulfilled (JArr []) \<and>
      (query (view a) = q \<longrightarrow> fetched (step API_BASE a Submit) = fetched a))"
proof (intro conjI impI)
  assume "well_formed q"
  then obtain enc where enc: "encodeURIComponent q = Inr enc"
    using encode_well_formed by blast
  have chars: "\<forall>c\<in>set enc. unescaped c \<or> c = 0x25"
    using encode_charset [OF enc] by blast
  then have "0x26 \<notin> set enc"
    using not_unescaped_amp by auto
  then have "query_parameters (ascii ''q='' @ enc) = [(ascii ''q'', enc)]"
    by (rule query_parameters_single)
  moreover have "decodeURIComponent enc = Inr q"
    using encode_decodes [OF enc] by (rule decodes_to_decode)
  moreover have "request_url API_BASE q = Inr (API_BASE @ ascii ''/search?q='' @ enc)"
    by (simp add: request_url_def enc)
  ultimately show "\<exists>enc. request_url API_BASE q = Inr (API_BASE @ ascii ''/search?q='' @ enc) \<and>
         (\<forall>c\<in>set enc. unescaped c \<or> c = 0x25) \<and>
         query_parameters (ascii ''q='' @ enc) = [(ascii ''q'', enc)] \<and>
         decodeURIComponent enc = Inr q"
    using chars by blast
next
  assume "\<not> well_formed q"
  then have e: "encodeURIComponent q = Inl URIError"
    by (rule encode_ill_formed)
  then show "request_url API_BASE q = Inl URIError"
    by (simp add: request_url_def)
  from e show "searchQuery API_BASE fetch q = Fulfilled (JArr [])"
    by (simp add: searchQuery_def searchQuery_try_def request_url_def)
  assume "query (view a) = q"
  with e show "fetched (step API_BASE a Submit) = fetched a"
    by (simp add: submit_def handleSearch_def request_url_def)
qed

theorem request_url_roundtrip_witness:
  "well_formed (ascii ''a&b'') \<and>
   request_url sample_base (ascii ''a&b'') = Inr (ascii ''http://h/search?q=a%26b'') \<and>
   query_parameters (ascii ''q=a%26b'') = [(ascii ''q'', ascii ''a%26b'')] \<and>
   decodeURIComponent (ascii ''a%26b'') = Inr (ascii ''a&b'') \<and>
   searchQuery sample_base (always (Fulfilled sample_response)) [0x61, 0xDC00] =
     Fulfilled (JArr []) \<and>
   fetched (step sample_base (step sample_base initial_app (Change [0x61, 0xDC00])) Submit) = []"
proof -
  have w: "well_formed (ascii ''a&b'')"
    by (rule well_formed_amp)
  have u: "request_url sample_base (ascii ''a&b'') = Inr (ascii ''http://h/search?q=a%26b'')"
    by (simp add: request_url_def encode_amp sample_base_def) (simp add: ascii_def)
  have cat: "sample_base @ ascii ''/search?q='' @ enc = ascii ''http://h/search?q=a%26b'' \<longleftrightarrow>
      enc = ascii ''a%26b''" for enc
    by (simp add: sample_base_def ascii_def)
  have q: "ascii ''q='' @ ascii ''a%26b'' = ascii ''q=a%26b''"
    by (simp add: ascii_def)
  have i: "\<not> well_formed [0x61, 0xDC00]"
    by (simp add: is_trailing_surrogate_def is_leading_surrogate_def)
  from request_url_roundtrip [of "ascii ''a&b''" sample_base] w
  obtain enc where enc:
    "request_url sample_base (ascii ''a&b'') = Inr (sample_base @ ascii ''/search?q='' @ enc)"
    "query_parameters (ascii ''q='' @ enc) = [(ascii ''q'', enc)]"
    "decodeURIComponent enc = Inr (ascii ''a&b'')"
    by blast
  have "Inr (sample_base @ ascii ''/search?q='' @ enc) =
      (Inr (ascii ''http://h/search?q=a%26b'') :: js_error + jsstring)"
    using enc(1) [symmetric] u by (rule trans)
  then have "sample_base @ ascii ''/search?q='' @ enc = ascii ''http://h/search?q=a%26b''"
    by (simp only: sum.inject)
  then have "enc = ascii ''a%26b''"
    by (simp only: cat)
  with enc(2,3)
  have "query_parameters (ascii ''q='' @ ascii ''a%26b'') = [(ascii ''q'', ascii ''a%26b'')] \<and>
      decodeURIComponent (ascii ''a%26b'') = Inr (ascii ''a&b'')"
    by simp
  moreover from request_url_roundtrip [of "[0x61, 0xDC00]" sample_base
      "always (Fulfilled sample_response)"
      "step sample_base initial_app (Change [0x61, 0xDC00])"] i
  have "searchQuery sample_base (always (Fulfilled sample_response)) [0x61, 0xDC00] =
      Fulfilled (JArr []) \<and>
    fetched (step sample_base (step sample_base initial_app (Change [0x61, 0xDC00])) Submit) = []"
    by (simp add: onChange_def initial_app_def)
  ultimately show ?thesis
    using w u by (simp add: q)
qed

text \<open>
  C9 as stated fails: the query made of the single code unit \<open>0xD800\<close>, an unpaired
  surrogate, is not blank, and no request URL is built for it; submitting it fetches
  nothing.
\<close>

theorem unpaired_surrogate_counterexample:
  "trim [0xD800] \<noteq> [] \<and>
   request_url sample_base [0xD800] = Inl URIError \<and>
   run sample_base initial_app [Change [0xD800], Submit] =
     \<lparr>view = \<lparr>query = [0xD800], results = JArr [], loading = True, hasSearched = True\<rparr>,
      inflight = [0xD800] # [],
      fetched = []\<rparr>"
proof -
  have t: "trim [0xD800] \<noteq> []"
    by (simp add: trim_def is_white_space_def)
  have u: "request_url sample_base [0xD800] = Inl URIError"
    by (simp add: request_url_def unescaped_def is_trailing_surrogate_def
          is_leading_surrogate_def)
  from t u show ?thesis
    by (simp add: run_def submit_def handleSearch_def onChange_def initial_app_def
          initial_view_def)
qed

end
